theory Spec2Isabelle
  imports Main "HOL-Library.Word" "HOL-Library.Sublist"
begin

unbundle bit_operations_syntax

section \<open>Data model\<close>

text \<open>
  A \<open>net.IP\<close> and a \<open>net.IPMask\<close> are byte slices; the nil slice is the empty list
  (the code only takes its length). A Go \<open>error\<close> is represented by its message.
\<close>

type_synonym byte = "8 word"
type_synonym IP = "byte list"
type_synonym IPMask = "byte list"
type_synonym error = string

record IPNet =
  IP :: IP
  Mask :: IPMask

text \<open>The row type of table \<open>dns_queries\<close> (struct \<open>DnsQuery\<close>); an instant is a number.\<close>

record DnsQuery =
  Timestamp :: nat
  Ip :: string
  Domain :: string
  Query :: string
  Answer :: string

text \<open>
  What a run does to the outside world, in the order it happens: a question sent with
  \<open>client.Exchange\<close> (question name, server address), a call of \<open>insertIntoDB\<close>
  (ip, domain, query, answer), a line written with \<open>log.Printf\<close>, and the start of
  the task of one address in \<open>main\<close>.
\<close>

datatype event =
  Sent string string
| Insert string string string string
| Logged string
| Dispatched IP

text \<open>
  The collaborators that are not part of the repository. The network, the database
  and the clock may answer differently from one call to the next, so each of them
  reads the history of events so far.
\<close>

record env =
  EncodeIPAddress :: "IP \<Rightarrow> string list \<Rightarrow> string"
  Exchange :: "event list \<Rightarrow> string \<Rightarrow> string \<Rightarrow> error + string list"
  Preparex :: "event list \<Rightarrow> error option"
  Exec :: "event list \<Rightarrow> DnsQuery \<Rightarrow> error option"
  Now :: "event list \<Rightarrow> nat"
  IPv6String :: "IP \<Rightarrow> string"
  ParseCIDR :: "string \<Rightarrow> error + IP \<times> IPNet"
  BuildDictionary :: "string \<Rightarrow> error + string list"
  OpenDB :: "string \<Rightarrow> error option"
  ExecSchema :: "string \<Rightarrow> error option"

text \<open>The command-line flags of \<open>main\<close>.\<close>

record flags =
  flag_domain :: string
  flag_network :: string
  flag_timeout :: int
  flag_domains :: string
  flag_db :: string
  flag_goroutines :: int

record state =
  dns_queries :: "DnsQuery list"
  trace :: "event list"

definition emit :: "event \<Rightarrow> state \<Rightarrow> state" where
  "emit e s = s\<lparr>trace := trace s @ [e]\<rparr>"

section \<open>Library functions the program calls\<close>

subsection \<open>Package net\<close>

definition IPv4len :: nat where
  "IPv4len = 4"

definition IPv6len :: nat where
  "IPv6len = 16"

definition v4InV6Prefix :: "byte list" where
  "v4InV6Prefix = [0, 0, 0, 0, 0, 0, 0, 0, 0, 0, 0xff, 0xff]"

definition IPv4 :: "byte \<Rightarrow> byte \<Rightarrow> byte \<Rightarrow> byte \<Rightarrow> IP" where
  "IPv4 a b c d = v4InV6Prefix @ [a, b, c, d]"

definition allFF :: "byte list \<Rightarrow> bool" where
  "allFF b = list_all (\<lambda>c. c = 0xff) b"

definition isZeros :: "byte list \<Rightarrow> bool" where
  "isZeros p = list_all (\<lambda>c. c = 0) p"

definition To4 :: "IP \<Rightarrow> IP" where
  "To4 ip =
     (if length ip = IPv4len then ip
      else if length ip = IPv6len \<and> isZeros (take 10 ip) \<and> ip ! 10 = 0xff \<and> ip ! 11 = 0xff
      then drop 12 ip
      else [])"

text \<open>\<open>CIDRMask ones bits\<close>: the loop over the \<open>l\<close> bytes of the mask, \<open>n\<close> ones left.\<close>

fun CIDRMask_loop :: "nat \<Rightarrow> nat \<Rightarrow> IPMask" where
  "CIDRMask_loop 0 n = []"
| "CIDRMask_loop (Suc l) n =
     (if 8 \<le> n then 0xff # CIDRMask_loop l (n - 8)
      else NOT (drop_bit n (0xff :: byte)) # CIDRMask_loop l 0)"

definition CIDRMask :: "nat \<Rightarrow> nat \<Rightarrow> IPMask" where
  "CIDRMask ones bits =
     (if bits \<noteq> 8 * IPv4len \<and> bits \<noteq> 8 * IPv6len then []
      else if bits < ones then []
      else CIDRMask_loop (bits div 8) ones)"

definition IP_Mask :: "IP \<Rightarrow> IPMask \<Rightarrow> IP" where
  "IP_Mask ip0 mask0 =
     (let mask = (if length mask0 = IPv6len \<and> length ip0 = IPv4len \<and> allFF (take 12 mask0)
                  then drop 12 mask0 else mask0);
          ip = (if length mask = IPv4len \<and> length ip0 = IPv6len \<and> take 12 ip0 = v4InV6Prefix
                then drop 12 ip0 else ip0)
      in if length ip \<noteq> length mask then []
         else map (\<lambda>i. ip ! i AND mask ! i) [0..<length ip])"

definition networkNumberAndMask :: "IPNet \<Rightarrow> IP \<times> IPMask" where
  "networkNumberAndMask n =
     (let ip = (if To4 (IP n) = [] then IP n else To4 (IP n))
      in if To4 (IP n) = [] \<and> length ip \<noteq> IPv6len then ([], [])
         else if length (Mask n) = IPv4len then
           (if length ip \<noteq> IPv4len then ([], []) else (ip, Mask n))
         else if length (Mask n) = IPv6len then
           (if length ip = IPv4len then (ip, drop 12 (Mask n)) else (ip, Mask n))
         else ([], []))"

definition Contains :: "IPNet \<Rightarrow> IP \<Rightarrow> bool" where
  "Contains n ip0 =
     (let (nn, m) = networkNumberAndMask n;
          ip = (if To4 ip0 \<noteq> [] then To4 ip0 else ip0);
          l = length ip
      in if l \<noteq> length nn then False
         else list_all (\<lambda>i. nn ! i AND m ! i = ip ! i AND m ! i) [0..<l])"

text \<open>
  \<open>ubtoa\<close>: a byte in decimal, without leading zeros. \<open>digit n\<close> is the
  character \<open>n + '0'\<close> of a number below ten.
\<close>

definition digit :: "nat \<Rightarrow> char" where
  "digit n = ''0123456789'' ! n"

definition ubtoa :: "byte \<Rightarrow> string" where
  "ubtoa v =
     (let n = unat v
      in if n < 10 then [digit n]
         else if n < 100 then [digit (n div 10), digit (n mod 10)]
         else [digit (n div 100), digit ((n div 10) mod 10), digit (n mod 10)])"

text \<open>
  \<open>ip.String()\<close>: dotted decimal for an IPv4 address; the text of any other address
  comes from the environment.
\<close>

definition IP_String :: "env \<Rightarrow> IP \<Rightarrow> string" where
  "IP_String env ip =
     (if length ip = 0 then ''<nil>''
      else if length (To4 ip) = IPv4len then
        (let p4 = To4 ip
         in ubtoa (p4 ! 0) @ ''.'' @ ubtoa (p4 ! 1) @ ''.'' @ ubtoa (p4 ! 2) @ ''.'' @ ubtoa (p4 ! 3))
      else IPv6String env ip)"

definition JoinHostPort :: "string \<Rightarrow> string \<Rightarrow> string" where
  "JoinHostPort host port =
     (if CHR '':'' \<in> set host then ''['' @ host @ '']:'' @ port
      else host @ '':'' @ port)"

subsection \<open>Package strings\<close>

text \<open>\<open>strings.Split s sep\<close> for a separator of one character.\<close>

fun Split :: "string \<Rightarrow> char \<Rightarrow> string list" where
  "Split [] sep = [[]]"
| "Split (c # cs) sep =
     (if c = sep then [] # Split cs sep
      else (case Split cs sep of
              [] \<Rightarrow> [[c]]
            | x # xs \<Rightarrow> (c # x) # xs))"

subsection \<open>Package dns\<close>

definition TypeA :: "16 word" where
  "TypeA = 1"

text \<open>The entry of table \<open>dns.TypeToString\<close> the program reads; a missing key reads as the empty string.\<close>

definition TypeToString :: "16 word \<Rightarrow> string" where
  "TypeToString t = (if t = TypeA then ''A'' else [])"

definition IsFqdn :: "string \<Rightarrow> bool" where
  "IsFqdn s =
     (if s = [] \<or> last s \<noteq> CHR ''.'' then False
      else even (length (takeWhile (\<lambda>c. c = CHR 0x5C) (rev (butlast s)))))"

definition Fqdn :: "string \<Rightarrow> string" where
  "Fqdn s = (if IsFqdn s then s else s @ ''.'')"

section \<open>The program\<close>

definition dnsQuestionToString :: "string \<Rightarrow> 16 word \<Rightarrow> string" where
  "dnsQuestionToString name qtype = name @ '' '' @ TypeToString qtype"

text \<open>The argument holds \<open>r.String()\<close> of every resource record of the answer.\<close>

definition dnsRRToString :: "string list \<Rightarrow> string" where
  "dnsRRToString rr = concat (map (\<lambda>r. r @ [CHR 0x0A]) rr)"

definition performDNSQuery :: "env \<Rightarrow> string \<Rightarrow> IP \<Rightarrow> state \<Rightarrow> (error + string \<times> string) \<times> state" where
  "performDNSQuery env fqdn ip s =
     (let name = Fqdn fqdn;
          server = JoinHostPort (IP_String env ip) ''53'';
          s1 = emit (Sent name server) s
      in case Exchange env (trace s) name server of
           Inl err \<Rightarrow> (Inl err, s1)
         | Inr rrs \<Rightarrow> (Inr (dnsQuestionToString name TypeA, dnsRRToString rrs), s1))"

definition insertIntoDB :: "env \<Rightarrow> string \<Rightarrow> string \<Rightarrow> string \<Rightarrow> string \<Rightarrow> state \<Rightarrow> error option \<times> state" where
  "insertIntoDB env ip domain query answer s =
     (let s1 = emit (Insert ip domain query answer) s
      in case Preparex env (trace s1) of
           Some err \<Rightarrow> (Some err, s1)
         | None \<Rightarrow>
             (let row = \<lparr>Timestamp = Now env (trace s1), Ip = ip, Domain = domain,
                        Query = query, Answer = answer\<rparr>
              in case Exec env (trace s1) row of
                   Some err \<Rightarrow> (Some err, s1)
                 | None \<Rightarrow> (None, s1\<lparr>dns_queries := dns_queries s1 @ [row]\<rparr>)))"

definition queryAdditionalDNS :: "env \<Rightarrow> IP \<Rightarrow> string \<Rightarrow> string list \<Rightarrow> state \<Rightarrow> error option \<times> state" where
  "queryAdditionalDNS env ip additionalDomain dictionary s =
     (case performDNSQuery env additionalDomain ip s of
        (Inl err, s1) \<Rightarrow> (Some err, s1)
      | (Inr (query, answer), s1) \<Rightarrow>
          insertIntoDB env (IP_String env ip) additionalDomain query answer s1)"

text \<open>The \<open>for ... range strings.Split(*domains, ",")\<close> loop of \<open>queryDNS\<close>.\<close>

fun additional_loop :: "env \<Rightarrow> IP \<Rightarrow> string list \<Rightarrow> string list \<Rightarrow> state \<Rightarrow> state" where
  "additional_loop env ip dictionary [] s = s"
| "additional_loop env ip dictionary (additionalDomain # rest) s =
     (case queryAdditionalDNS env ip additionalDomain dictionary s of
        (Some err, s1) \<Rightarrow>
          additional_loop env ip dictionary rest
            (emit (Logged (''Error querying additional DNS: '' @ err @ [CHR 0x0A])) s1)
      | (None, s1) \<Rightarrow> additional_loop env ip dictionary rest s1)"

definition queryDNS :: "env \<Rightarrow> IP \<Rightarrow> string \<Rightarrow> string \<Rightarrow> string list \<Rightarrow> state \<Rightarrow> error option \<times> state" where
  "queryDNS env ip domain domains dictionary s =
     (let subdomain = EncodeIPAddress env ip dictionary;
          fqdn = subdomain @ ''.'' @ domain
      in case performDNSQuery env fqdn ip s of
           (Inl err, s1) \<Rightarrow> (Some (''query request failed: '' @ err), s1)
         | (Inr (query, answer), s1) \<Rightarrow>
             (case insertIntoDB env (IP_String env ip) domain query answer s1 of
                (Some err, s2) \<Rightarrow> (Some err, s2)
              | (None, s2) \<Rightarrow>
                  (None, if domains \<noteq> [] then additional_loop env ip dictionary (Split domains CHR '','') s2
                         else s2)))"

text \<open>\<open>inc\<close>: the loop over \<open>j\<close> from the last byte down; \<open>inc_loop (j + 1)\<close> is the turn for index \<open>j\<close>.\<close>

fun inc_loop :: "nat \<Rightarrow> IP \<Rightarrow> IP" where
  "inc_loop 0 ip = ip"
| "inc_loop (Suc j) ip =
     (if ip ! j < 255 then ip[j := ip ! j + 1]
      else inc_loop j (ip[j := 0]))"

definition inc :: "IP \<Rightarrow> IP" where
  "inc ip = inc_loop (length ip) ip"

definition schema :: string where
  "schema = ''CREATE TABLE IF NOT EXISTS dns_queries (timestamp TIMESTAMP, ip TEXT, domain TEXT, query TEXT, answer TEXT);''"

definition initializeDB :: "env \<Rightarrow> string \<Rightarrow> error option" where
  "initializeDB env dbFile =
     (case OpenDB env dbFile of
        Some err \<Rightarrow> Some err
      | None \<Rightarrow> ExecSchema env schema)"

text \<open>
  The body of the goroutine that \<open>main\<close> starts for one address. The tasks share
  nothing but the table, which they only append to, and the log; the model runs each
  task to its end at the moment it is started, one after the other.
\<close>

definition task :: "env \<Rightarrow> flags \<Rightarrow> string list \<Rightarrow> IP \<Rightarrow> state \<Rightarrow> state" where
  "task env fl dictionary ip s =
     (case queryDNS env ip (flag_domain fl) (flag_domains fl) dictionary s of
        (Some err, s1) \<Rightarrow> emit (Logged (''Error querying DNS: '' @ err @ [CHR 0x0A])) s1
      | (None, s1) \<Rightarrow> s1)"

text \<open>
  How a run of \<open>main\<close> ends: \<open>log.Fatalf\<close>, a panic of the runtime, a send that
  blocks for ever, the return after \<open>wg.Wait()\<close>; or it is still in the loop after
  the given number of turns.
\<close>

datatype outcome =
  Fatal string state
| Panic string state
| Blocked state
| Returned state
| Running state

text \<open>
  The loop \<open>for ip := ip.Mask(ipnet.Mask); ipnet.Contains(ip); inc(ip)\<close>, for at most
  \<open>fuel\<close> turns. With a channel of capacity 0 the first send finds no receiver.
\<close>

fun scan_loop :: "nat \<Rightarrow> env \<Rightarrow> flags \<Rightarrow> string list \<Rightarrow> IPNet \<Rightarrow> IP \<Rightarrow> state \<Rightarrow> outcome" where
  "scan_loop 0 env fl dictionary ipnet ip s = Running s"
| "scan_loop (Suc fuel) env fl dictionary ipnet ip s =
     (if Contains ipnet ip then
        (if flag_goroutines fl = 0 then Blocked s
         else scan_loop fuel env fl dictionary ipnet (inc ip)
                (task env fl dictionary ip (emit (Dispatched ip) s)))
      else Returned s)"

definition main :: "nat \<Rightarrow> env \<Rightarrow> flags \<Rightarrow> state \<Rightarrow> outcome" where
  "main fuel env fl s =
     (case BuildDictionary env ''dictionary.txt'' of
        Inl err \<Rightarrow> Fatal (''Error building dictionary: '' @ err @ [CHR 0x0A]) s
      | Inr dictionary \<Rightarrow>
          (case initializeDB env (flag_db fl) of
             Some err \<Rightarrow> Fatal (''Error initializing database: '' @ err @ [CHR 0x0A]) s
           | None \<Rightarrow>
               (case ParseCIDR env (flag_network fl) of
                  Inl err \<Rightarrow> Fatal (''Error parsing CIDR: '' @ err @ [CHR 0x0A]) s
                | Inr (ip, ipnet) \<Rightarrow>
                    if flag_goroutines fl < 0 then Panic ''makechan: size out of range'' s
                    else scan_loop fuel env fl dictionary ipnet (IP_Mask ip (Mask ipnet)) s)))"

text \<open>
  What \<open>net.ParseCIDR\<close> returns for the text \<open>a.b.c.d/p\<close> of an IPv4 block: the
  address in its 16-byte form and the network with a 4-byte mask.
\<close>

definition ipv4_cidr :: "byte \<Rightarrow> byte \<Rightarrow> byte \<Rightarrow> byte \<Rightarrow> nat \<Rightarrow> IP \<times> IPNet" where
  "ipv4_cidr a b c d p =
     (IPv4 a b c d,
      \<lparr>IP = IP_Mask (IPv4 a b c d) (CIDRMask p (8 * IPv4len)), Mask = CIDRMask p (8 * IPv4len)\<rparr>)"

text \<open>The loop of \<open>main\<close> starts at the masked address of the block.\<close>

definition network_address :: "byte \<Rightarrow> byte \<Rightarrow> byte \<Rightarrow> byte \<Rightarrow> nat \<Rightarrow> IP" where
  "network_address a b c d p = IP_Mask (IPv4 a b c d) (CIDRMask p (8 * IPv4len))"

section \<open>The scheduler of \<open>main\<close> as a transition system\<close>

text \<open>
  Lines 65 to 86 of \<open>main\<close> run one goroutine per address under a channel used as a
  counting semaphore and a \<open>sync.WaitGroup\<close>. What the goroutines store is modelled
  above; here is who runs when. Any interleaving of \<open>main\<close> and its goroutines is a
  sequence of steps of the relation \<open>step\<close>.

  \<open>main\<close> is at the condition of the loop, at the send \<open>semaphore <- struct{}{}\<close>,
  at \<open>wg.Add(1)\<close>, at the \<open>go\<close> statement, at \<open>wg.Wait()\<close>, or past it. A
  goroutine is in \<open>queryDNS\<close> (from its start up to its receive \<open><-semaphore\<close>),
  past the receive with the deferred \<open>wg.Done()\<close> still to run, or finished.
\<close>

datatype main_pc = AtCond | AtSend | AtAdd | AtGo | AtWait | AtEnd

datatype task_pc = Querying | Released | Finished

text \<open>
  The state: where \<open>main\<close> is, the loop variable \<open>ip\<close>, the number of tokens in the
  channel, the counter of the wait group, and the goroutines started so far, in order,
  each with the copy \<open>currentIP\<close> it was given.
\<close>

record sched =
  m_pc :: main_pc
  loop_ip :: IP
  tokens :: nat
  wg_count :: nat
  goroutines :: "(IP \<times> task_pc) list"

definition init_sched :: "IP \<Rightarrow> sched" where
  "init_sched start = \<lparr>m_pc = AtCond, loop_ip = start, tokens = 0, wg_count = 0, goroutines = []\<rparr>"

text \<open>
  A send on a channel of capacity \<open>N\<close> goes through while fewer than \<open>N\<close> tokens are
  in it and blocks otherwise; a receive needs a token; \<open>wg.Done()\<close> needs a positive
  counter; \<open>wg.Wait()\<close> goes through when the counter is zero.
\<close>

inductive step :: "nat \<Rightarrow> IPNet \<Rightarrow> sched \<Rightarrow> sched \<Rightarrow> bool" for N :: nat and ipnet :: IPNet where
  cond_in: "m_pc s = AtCond \<Longrightarrow> Contains ipnet (loop_ip s) \<Longrightarrow> step N ipnet s (s\<lparr>m_pc := AtSend\<rparr>)"
| cond_out: "m_pc s = AtCond \<Longrightarrow> \<not> Contains ipnet (loop_ip s) \<Longrightarrow> step N ipnet s (s\<lparr>m_pc := AtWait\<rparr>)"
| send: "m_pc s = AtSend \<Longrightarrow> tokens s < N \<Longrightarrow>
           step N ipnet s (s\<lparr>m_pc := AtAdd, tokens := Suc (tokens s)\<rparr>)"
| add: "m_pc s = AtAdd \<Longrightarrow> step N ipnet s (s\<lparr>m_pc := AtGo, wg_count := Suc (wg_count s)\<rparr>)"
| go: "m_pc s = AtGo \<Longrightarrow>
         step N ipnet s (s\<lparr>m_pc := AtCond, loop_ip := inc (loop_ip s),
                           goroutines := goroutines s @ [(loop_ip s, Querying)]\<rparr>)"
| recv: "i < length (goroutines s) \<Longrightarrow> goroutines s ! i = (ip, Querying) \<Longrightarrow> 0 < tokens s \<Longrightarrow>
           step N ipnet s (s\<lparr>tokens := tokens s - 1,
                             goroutines := (goroutines s)[i := (ip, Released)]\<rparr>)"
| finish: "i < length (goroutines s) \<Longrightarrow> goroutines s ! i = (ip, Released) \<Longrightarrow> 0 < wg_count s \<Longrightarrow>
           step N ipnet s (s\<lparr>wg_count := wg_count s - 1,
                             goroutines := (goroutines s)[i := (ip, Finished)]\<rparr>)"
| wait: "m_pc s = AtWait \<Longrightarrow> wg_count s = 0 \<Longrightarrow> step N ipnet s (s\<lparr>m_pc := AtEnd\<rparr>)"

inductive reachable :: "nat \<Rightarrow> IPNet \<Rightarrow> IP \<Rightarrow> sched \<Rightarrow> bool" for N :: nat and ipnet :: IPNet and start :: IP where
  reach_init: "reachable N ipnet start (init_sched start)"
| reach_step: "reachable N ipnet start s \<Longrightarrow> step N ipnet s s' \<Longrightarrow> reachable N ipnet start s'"

text \<open>The goroutines inside \<open>queryDNS\<close>, and those that have not finished.\<close>

definition querying :: "sched \<Rightarrow> nat" where
  "querying s = length (filter (\<lambda>g. snd g = Querying) (goroutines s))"

definition unfinished :: "sched \<Rightarrow> nat" where
  "unfinished s = length (filter (\<lambda>g. snd g \<noteq> Finished) (goroutines s))"

text \<open>What holds in every reachable state.\<close>

definition sched_inv :: "nat \<Rightarrow> IPNet \<Rightarrow> IP \<Rightarrow> sched \<Rightarrow> bool" where
  "sched_inv N ipnet start s =
     (tokens s = querying s + (if m_pc s = AtAdd \<or> m_pc s = AtGo then 1 else 0) \<and>
      wg_count s = unfinished s + (if m_pc s = AtGo then 1 else 0) \<and>
      tokens s \<le> N \<and>
      map fst (goroutines s) = map (\<lambda>j. (inc ^^ j) start) [0..<length (goroutines s)] \<and>
      loop_ip s = (inc ^^ length (goroutines s)) start \<and>
      (\<forall>g \<in> set (goroutines s). Contains ipnet (fst g)) \<and>
      (m_pc s = AtSend \<or> m_pc s = AtAdd \<or> m_pc s = AtGo \<longrightarrow> Contains ipnet (loop_ip s)) \<and>
      (m_pc s = AtWait \<or> m_pc s = AtEnd \<longrightarrow> \<not> Contains ipnet (loop_ip s)) \<and>
      (m_pc s = AtEnd \<longrightarrow> wg_count s = 0))"

section \<open>Observations\<close>

text \<open>The value of an address as a big-endian number.\<close>

definition ip_val :: "IP \<Rightarrow> nat" where
  "ip_val ip = foldl (\<lambda>acc b. acc * 256 + unat b) 0 ip"

text \<open>Two byte strings and-ed byte by byte.\<close>

definition band :: "byte list \<Rightarrow> byte list \<Rightarrow> byte list" where
  "band xs ys = map (\<lambda>(x, y). x AND y) (zip xs ys)"

text \<open>
  What a history shows: the addresses whose task was started, the questions sent (name,
  server), the records handed to \<open>insertIntoDB\<close> (ip, domain, query, answer).
\<close>

fun dispatched_of :: "event \<Rightarrow> IP list" where
  "dispatched_of (Dispatched ip) = [ip]"
| "dispatched_of _ = []"

definition dispatched :: "event list \<Rightarrow> IP list" where
  "dispatched tr = concat (map dispatched_of tr)"

fun sent_of :: "event \<Rightarrow> (string \<times> string) list" where
  "sent_of (Sent name server) = [(name, server)]"
| "sent_of _ = []"

definition sent :: "event list \<Rightarrow> (string \<times> string) list" where
  "sent tr = concat (map sent_of tr)"

fun inserted_of :: "event \<Rightarrow> (string \<times> string \<times> string \<times> string) list" where
  "inserted_of (Insert i d q a) = [(i, d, q, a)]"
| "inserted_of _ = []"

definition inserted :: "event list \<Rightarrow> (string \<times> string \<times> string \<times> string) list" where
  "inserted tr = concat (map inserted_of tr)"

text \<open>The domain of such a record, and the columns of a stored row but its timestamp.\<close>

definition domain_of :: "string \<times> string \<times> string \<times> string \<Rightarrow> string" where
  "domain_of r = fst (snd r)"

definition row_key :: "DnsQuery \<Rightarrow> string \<times> string \<times> string \<times> string" where
  "row_key r = (Ip r, Domain r, Query r, Answer r)"

text \<open>The name \<open>queryDNS\<close> asks first, and the server it asks.\<close>

definition primary_name :: "env \<Rightarrow> IP \<Rightarrow> string \<Rightarrow> string list \<Rightarrow> string" where
  "primary_name env ip domain dictionary = Fqdn (EncodeIPAddress env ip dictionary @ ''.'' @ domain)"

definition server_of :: "env \<Rightarrow> IP \<Rightarrow> string" where
  "server_of env ip = JoinHostPort (IP_String env ip) ''53''"

text \<open>The call of \<open>insertIntoDB\<close> that follows a primary exchange with answer \<open>rrs\<close>.\<close>

definition primary_insert :: "env \<Rightarrow> IP \<Rightarrow> string \<Rightarrow> string list \<Rightarrow> string list \<Rightarrow> state \<Rightarrow> error option \<times> state" where
  "primary_insert env ip domain dictionary rrs s =
     insertIntoDB env (IP_String env ip) domain
       (dnsQuestionToString (primary_name env ip domain dictionary) TypeA) (dnsRRToString rrs)
       (emit (Sent (primary_name env ip domain dictionary) (server_of env ip)) s)"

text \<open>
  The two ways the primary step of \<open>queryDNS\<close> fails in state \<open>s\<close>: the exchange
  returns an error, or it succeeds and the write of its record returns one.
\<close>

definition primary_query_fails :: "env \<Rightarrow> IP \<Rightarrow> string \<Rightarrow> string list \<Rightarrow> state \<Rightarrow> bool" where
  "primary_query_fails env ip domain dictionary s =
     isl (Exchange env (trace s) (primary_name env ip domain dictionary) (server_of env ip))"

definition primary_insert_fails :: "env \<Rightarrow> IP \<Rightarrow> string \<Rightarrow> string list \<Rightarrow> state \<Rightarrow> bool" where
  "primary_insert_fails env ip domain dictionary s =
     (case performDNSQuery env (EncodeIPAddress env ip dictionary @ ''.'' @ domain) ip s of
        (Inl err, s1) \<Rightarrow> False
      | (Inr (query, answer), s1) \<Rightarrow>
          fst (insertIntoDB env (IP_String env ip) domain query answer s1) \<noteq> None)"

text \<open>
  A server that answers a name whenever it is asked, and one that never does; a network
  where every exchange succeeds; a database that takes every row.
\<close>

definition answers :: "env \<Rightarrow> string \<Rightarrow> string \<Rightarrow> bool" where
  "answers env name server = (\<forall>tr. \<not> isl (Exchange env tr name server))"

definition never_answers :: "env \<Rightarrow> string \<Rightarrow> string \<Rightarrow> bool" where
  "never_answers env name server = (\<forall>tr. isl (Exchange env tr name server))"

definition net_ok :: "env \<Rightarrow> bool" where
  "net_ok env = (\<forall>tr name server. \<not> isl (Exchange env tr name server))"

definition db_ok :: "env \<Rightarrow> bool" where
  "db_ok env = ((\<forall>tr. Preparex env tr = None) \<and> (\<forall>tr row. Exec env tr row = None))"

text \<open>The lines written to the log.\<close>

fun logged_of :: "event \<Rightarrow> string list" where
  "logged_of (Logged m) = [m]"
| "logged_of _ = []"

definition logged :: "event list \<Rightarrow> string list" where
  "logged tr = concat (map logged_of tr)"

text \<open>
  A database where every write of a row of domain \<open>d\<close> fails (at \<open>Preparex\<close> or at
  \<open>Exec\<close>), and one where every such write succeeds.
\<close>

definition refuses :: "env \<Rightarrow> string \<Rightarrow> bool" where
  "refuses env d = (\<forall>tr row. Domain row = d \<longrightarrow> Preparex env tr \<noteq> None \<or> Exec env tr row \<noteq> None)"

definition stores :: "env \<Rightarrow> string \<Rightarrow> bool" where
  "stores env d = ((\<forall>tr. Preparex env tr = None) \<and> (\<forall>tr row. Domain row = d \<longrightarrow> Exec env tr row = None))"

text \<open>The state after one turn of the loop over the additional domains.\<close>

definition after_additional :: "env \<Rightarrow> IP \<Rightarrow> string \<Rightarrow> string list \<Rightarrow> state \<Rightarrow> state" where
  "after_additional env ip d dictionary s =
     (case queryAdditionalDNS env ip d dictionary s of
        (Some err, s1) \<Rightarrow> emit (Logged (''Error querying additional DNS: '' @ err @ [CHR 0x0A])) s1
      | (None, s1) \<Rightarrow> s1)"

text \<open>The number of additional domains that \<open>queryDNS\<close> goes through.\<close>

definition additional_count :: "string \<Rightarrow> nat" where
  "additional_count domains = (if domains = [] then 0 else length (Split domains CHR '',''))"

text \<open>One turn of the loop of \<open>main\<close> for address \<open>ip\<close>, and the turns for a list of addresses.\<close>

definition dispatch :: "env \<Rightarrow> flags \<Rightarrow> string list \<Rightarrow> IP \<Rightarrow> state \<Rightarrow> state" where
  "dispatch env fl dictionary ip s = task env fl dictionary ip (emit (Dispatched ip) s)"

definition run_tasks :: "env \<Rightarrow> flags \<Rightarrow> string list \<Rightarrow> IP list \<Rightarrow> state \<Rightarrow> state" where
  "run_tasks env fl dictionary ips s = fold (dispatch env fl dictionary) ips s"

section \<open>Example inputs\<close>

text \<open>
  Collaborators and flags for running the model on small inputs: a parser that knows
  two blocks, an encoder that gives every address the token \<open>tok\<close>, a clock that
  counts events, and a network and a database to choose.
\<close>

definition example_parse :: "string \<Rightarrow> error + IP \<times> IPNet" where
  "example_parse s =
     (if s = ''10.0.0.8/30'' then Inr (ipv4_cidr 10 0 0 8 30)
      else if s = ''0.0.0.0/0'' then Inr (ipv4_cidr 0 0 0 0 0)
      else Inl (''invalid CIDR address: '' @ s))"

definition example_env ::
    "(event list \<Rightarrow> string \<Rightarrow> string \<Rightarrow> error + string list) \<Rightarrow> (event list \<Rightarrow> DnsQuery \<Rightarrow> error option) \<Rightarrow> env" where
  "example_env exchange exec =
     \<lparr>EncodeIPAddress = (\<lambda>ip dictionary. ''tok''), Exchange = exchange, Preparex = (\<lambda>tr. None),
      Exec = exec, Now = length, IPv6String = (\<lambda>ip. ''?''), ParseCIDR = example_parse,
      BuildDictionary = (\<lambda>file. Inr []), OpenDB = (\<lambda>file. None), ExecSchema = (\<lambda>q. None)\<rparr>"

text \<open>
  Every server answers and every row is stored; every exchange times out; every row is
  refused; the server for \<open>b.example.\<close> times out; the rows of domain
  \<open>b.example\<close> are refused.
\<close>

definition env_up :: env where
  "env_up = example_env (\<lambda>tr name server. Inr [name @ '' 60 IN A 192.0.2.1'']) (\<lambda>tr row. None)"

definition env_down :: env where
  "env_down = example_env (\<lambda>tr name server. Inl ''i/o timeout'') (\<lambda>tr row. None)"

definition env_db_fails :: env where
  "env_db_fails =
     example_env (\<lambda>tr name server. Inr [name @ '' 60 IN A 192.0.2.1'']) (\<lambda>tr row. Some ''database is locked'')"

definition env_one_down :: env where
  "env_one_down =
     example_env (\<lambda>tr name server. if name = ''b.example.'' then Inl ''i/o timeout''
                                     else Inr [name @ '' 60 IN A 192.0.2.1''])
       (\<lambda>tr row. None)"

definition env_b_refused :: env where
  "env_b_refused =
     example_env (\<lambda>tr name server. Inr [name @ '' 60 IN A 192.0.2.1''])
       (\<lambda>tr row. if Domain row = ''b.example'' then Some ''database is locked'' else None)"

definition fl_30 :: flags where
  "fl_30 = \<lparr>flag_domain = ''example.com'', flag_network = ''10.0.0.8/30'', flag_timeout = 5,
            flag_domains = ''a.example'', flag_db = ''dns.db'', flag_goroutines = 20\<rparr>"

definition fl_0 :: flags where
  "fl_0 = fl_30\<lparr>flag_network := ''0.0.0.0/0''\<rparr>"

definition fl_bad :: flags where
  "fl_bad = fl_30\<lparr>flag_network := ''10.0.0.8''\<rparr>"

definition fl_abc :: flags where
  "fl_abc = fl_30\<lparr>flag_domains := ''a.example,b.example,c.example''\<rparr>"

definition s_init :: state where
  "s_init = \<lparr>dns_queries = [], trace = []\<rparr>"

text \<open>The block 10.0.0.8/32, and the scheduler at the end of a run on it.\<close>

definition net_32 :: IPNet where
  "net_32 = \<lparr>IP = [10, 0, 0, 8], Mask = [255, 255, 255, 255]\<rparr>"

definition sched_end :: sched where
  "sched_end = \<lparr>m_pc = AtEnd, loop_ip = [10, 0, 0, 9], tokens = 0, wg_count = 0,
                 goroutines = [([10, 0, 0, 8], Finished)]\<rparr>"

section \<open>Properties of the library functions\<close>

lemma ff_minus1: "(0xff :: byte) = - 1"
  by simp

lemma mask_byte_eq: "p \<le> 8 \<Longrightarrow> (b :: byte) AND NOT (drop_bit p (0xff :: byte)) = push_bit (8 - p) (drop_bit (8 - p) b)"
  unfolding ff_minus1
  by (rule bit_word_eqI) (auto simp add: bit_simps)

lemma unat_push_drop: "unat (push_bit n (drop_bit n (b :: byte))) = (unat b div 2 ^ n) * 2 ^ n"
proof -
  have "(unat b div 2 ^ n) * 2 ^ n \<le> unat b"
    by simp
  moreover have "unat b < 256"
    using unsigned_less [of b] by simp
  ultimately have "(unat b div 2 ^ n) * 2 ^ n < 256" by linarith
  have "unat (push_bit n (drop_bit n b)) = take_bit 8 (push_bit n (drop_bit n (take_bit 8 (unat b))))"
    by (simp only: unsigned_push_bit_eq unsigned_drop_bit_eq) simp
  also have "\<dots> = ((unat b mod 256) div 2 ^ n * 2 ^ n) mod 256"
    by (simp only: push_bit_eq_mult drop_bit_eq_div take_bit_eq_mod) simp
  also have "\<dots> = (unat b div 2 ^ n) * 2 ^ n"
    using \<open>unat b < 256\<close> \<open>(unat b div 2 ^ n) * 2 ^ n < 256\<close> by simp
  finally show ?thesis .
qed

lemma unat_mask_byte:
  "p \<le> 8 \<Longrightarrow> unat ((b :: byte) AND NOT (drop_bit p (0xff :: byte))) = (unat b div 2 ^ (8 - p)) * 2 ^ (8 - p)"
  by (simp only: mask_byte_eq unat_push_drop)

lemma ip_val_Nil [simp]: "ip_val [] = 0"
  by (simp add: ip_val_def)

lemma ip_val_snoc [simp]: "ip_val (xs @ [b]) = ip_val xs * 256 + unat b"
  by (simp add: ip_val_def)

lemma ip_val_bound: "ip_val xs < 256 ^ length xs"
proof (induction xs rule: rev_induct)
  case Nil
  show ?case by simp
next
  case (snoc b xs)
  have "unat b < 256" using unsigned_less [of b] by simp
  then have "ip_val xs * 256 + unat b < (ip_val xs + 1) * 256" by simp
  also have "\<dots> \<le> 256 ^ length xs * 256"
    using snoc.IH by (intro mult_le_mono1) simp
  finally show ?case by simp
qed

lemma ip_val_append: "ip_val (xs @ ys) = ip_val xs * 256 ^ length ys + ip_val ys"
proof (induction ys rule: rev_induct)
  case Nil
  show ?case by simp
next
  case (snoc b ys)
  have "ip_val (xs @ ys @ [b]) = ip_val ((xs @ ys) @ [b])" by simp
  also have "\<dots> = ip_val (xs @ ys) * 256 + unat b" by (rule ip_val_snoc)
  finally show ?case by (simp add: snoc.IH algebra_simps)
qed

lemma ip_val_Cons: "ip_val (b # xs) = unat b * 256 ^ length xs + ip_val xs"
  using ip_val_append [of "[b]" xs] ip_val_snoc [of "[]" b] by simp

lemma ip_val_inj: "length xs = length ys \<Longrightarrow> ip_val xs = ip_val ys \<Longrightarrow> xs = ys"
proof (induction xs ys rule: list_induct2)
  case Nil
  show ?case by simp
next
  case (Cons x xs y ys)
  have bx: "ip_val xs < 256 ^ length xs" by (rule ip_val_bound)
  have by': "ip_val ys < 256 ^ length xs" using ip_val_bound [of ys] Cons.hyps by simp
  have eq: "unat x * 256 ^ length xs + ip_val xs = unat y * 256 ^ length xs + ip_val ys"
    using Cons.prems Cons.hyps by (simp add: ip_val_Cons)
  have "(unat x * 256 ^ length xs + ip_val xs) div 256 ^ length xs = unat x"
    using bx by simp
  moreover have "(unat y * 256 ^ length xs + ip_val ys) div 256 ^ length xs = unat y"
    using by' by simp
  ultimately have u: "unat x = unat y" using eq by simp
  then have "x = y" by (rule word_unat_eq_iff [THEN iffD2])
  moreover have "ip_val xs = ip_val ys" using eq u by simp
  ultimately show ?case using Cons.IH by simp
qed

lemma inc_loop_length [simp]: "length (inc_loop j ip) = length ip"
  by (induction j arbitrary: ip) auto

lemma inc_loop_append: "j \<le> length xs \<Longrightarrow> inc_loop j (xs @ ys) = inc_loop j xs @ ys"
proof (induction j arbitrary: xs)
  case 0
  show ?case by simp
next
  case (Suc j)
  then have j: "j < length xs" by simp
  then show ?case
    using Suc.IH [of "xs[j := 0]"] by (simp add: nth_append list_update_append)
qed

lemma inc_snoc:
  "inc (xs @ [b]) = (if b < 255 then xs @ [b + 1] else inc xs @ [0])"
  by (simp add: inc_def inc_loop_append)

lemma inc_length [simp]: "length (inc ip) = length ip"
  by (simp add: inc_def)

lemma ip_val_inc: "ip_val (inc ip) = (ip_val ip + 1) mod 256 ^ length ip"
proof (induction ip rule: rev_induct)
  case Nil
  show ?case by (simp add: inc_def)
next
  case (snoc b xs)
  have bb: "unat b < 256" using unsigned_less [of b] by simp
  have bx: "ip_val xs < 256 ^ length xs" by (rule ip_val_bound)
  show ?case
  proof (cases "b < 255")
    case True
    then have lt: "unat b < 255" by (simp add: word_less_nat_alt)
    then have u: "unat (b + 1) = unat b + 1" by (simp add: unat_word_ariths)
    have "ip_val xs * 256 + unat b + 1 < (ip_val xs + 1) * 256" using lt by simp
    also have "\<dots> \<le> 256 ^ length xs * 256" using bx by (intro mult_le_mono1) simp
    finally have "ip_val xs * 256 + unat b + 1 < 256 ^ length (xs @ [b])" by simp
    then show ?thesis using True u by (simp add: inc_snoc)
  next
    case False
    then have e: "unat b = 255" using bb by (simp add: word_less_nat_alt)
    have "(ip_val xs * 256 + 255 + 1) mod (256 ^ length xs * 256) = ((ip_val xs + 1) * 256) mod (256 ^ length xs * 256)"
      by (simp add: algebra_simps)
    also have "\<dots> = ((ip_val xs + 1) mod 256 ^ length xs) * 256"
      by (simp add: mult_mod_left)
    finally have "(ip_val xs * 256 + 255 + 1) mod (256 ^ length xs * 256) = ip_val (inc xs) * 256"
      using snoc.IH by simp
    then show ?thesis using False e by (simp add: inc_snoc mult.commute)
  qed
qed

lemma and_ff [simp]: "(b :: byte) AND 0xff = b"
  unfolding ff_minus1 by simp

lemma CIDRMask_loop_length [simp]: "length (CIDRMask_loop l n) = l"
  by (induction l arbitrary: n) auto

lemma band_Cons [simp]: "band (x # xs) (y # ys) = (x AND y) # band xs ys"
  by (simp add: band_def)

lemma band_Nil [simp]: "band [] ys = []"
  by (simp add: band_def)

lemma band_length [simp]: "length (band xs ys) = min (length xs) (length ys)"
  by (simp add: band_def)

lemma band_nth: "length xs = length ys \<Longrightarrow> map (\<lambda>i. xs ! i AND ys ! i) [0..<length xs] = band xs ys"
  by (rule nth_equalityI) (simp_all add: band_def)

lemma div_mult_pow2:
  fixes a v k j :: nat
  shows "(a * (2 ^ j * 2 ^ k) + v) div 2 ^ k * 2 ^ k = a * (2 ^ j * 2 ^ k) + v div 2 ^ k * 2 ^ k"
proof -
  have "(a * (2 ^ j * 2 ^ k) + v) div 2 ^ k = a * 2 ^ j + v div 2 ^ k"
    by (simp add: mult.assoc [symmetric])
  then show ?thesis by (simp add: algebra_simps)
qed

lemma ip_val_band_mask:
  "length ip = l \<Longrightarrow> p \<le> 8 * l \<Longrightarrow>
     ip_val (band ip (CIDRMask_loop l p)) = ip_val ip div 2 ^ (8 * l - p) * 2 ^ (8 * l - p)"
proof (induction l arbitrary: ip p)
  case 0
  then show ?case by simp
next
  case (Suc l)
  then obtain b bs where ip: "ip = b # bs" and len: "length bs = l"
    by (cases ip) auto
  have vb: "ip_val bs < 2 ^ (8 * l)"
    using ip_val_bound [of bs] len by (simp add: power_mult)
  have p256: "(256 :: nat) ^ l = 2 ^ (8 * l)" by (simp add: power_mult)
  show ?case
  proof (cases "8 \<le> p")
    case True
    let ?k = "8 * l - (p - 8)"
    have k: "8 * Suc l - p = ?k" using True Suc.prems by simp
    have j: "8 * l = (p - 8) + ?k" using True Suc.prems by simp
    have pw: "(2 :: nat) ^ (8 * l) = 2 ^ (p - 8) * 2 ^ ?k"
      by (subst j) (simp only: power_add)
    have IH: "ip_val (band bs (CIDRMask_loop l (p - 8))) = ip_val bs div 2 ^ ?k * 2 ^ ?k"
      using Suc.IH [of bs "p - 8"] len True Suc.prems by simp
    have "ip_val (band ip (CIDRMask_loop (Suc l) p)) = unat b * 2 ^ (8 * l) + ip_val bs div 2 ^ ?k * 2 ^ ?k"
      using True IH len by (simp add: ip ip_val_Cons p256)
    also have "\<dots> = (unat b * 2 ^ (8 * l) + ip_val bs) div 2 ^ ?k * 2 ^ ?k"
      unfolding pw by (rule div_mult_pow2 [symmetric])
    finally show ?thesis
      using len by (simp only: k ip ip_val_Cons p256)
  next
    case False
    then have p8: "p \<le> 8" by simp
    have z: "ip_val (band bs (CIDRMask_loop l 0)) = 0"
      using Suc.IH [of bs 0] len vb by simp
    have kk: "8 * Suc l - p = 8 * l + (8 - p)" using False by simp
    have d: "(unat b * 2 ^ (8 * l) + ip_val bs) div 2 ^ (8 * l + (8 - p)) = unat b div 2 ^ (8 - p)"
      using vb by (simp add: power_add div_mult2_eq)
    have "ip_val (band ip (CIDRMask_loop (Suc l) p)) = unat b div 2 ^ (8 - p) * 2 ^ (8 - p) * 2 ^ (8 * l)"
      using False z len p8 by (simp add: ip ip_val_Cons p256 unat_mask_byte)
    also have "\<dots> = unat b div 2 ^ (8 - p) * 2 ^ (8 * l + (8 - p))"
      by (simp add: power_add algebra_simps)
    also have "\<dots> = (unat b * 2 ^ (8 * l) + ip_val bs) div 2 ^ (8 * l + (8 - p)) * 2 ^ (8 * l + (8 - p))"
      by (simp only: d)
    finally show ?thesis
      using len by (simp only: kk ip ip_val_Cons p256)
  qed
qed

lemma To4_4 [simp]: "length ip = 4 \<Longrightarrow> To4 ip = ip"
  by (simp add: To4_def IPv4len_def)

lemma CIDRMask_32: "p \<le> 32 \<Longrightarrow> CIDRMask p (8 * IPv4len) = CIDRMask_loop 4 p"
  by (simp add: CIDRMask_def IPv4len_def IPv6len_def)

lemma length_4:
  assumes "length m = 4"
  obtains m0 m1 m2 m3 where "m = [m0, m1, m2, m3]"
  using assms by (auto simp: length_Suc_conv numeral_eq_Suc)

lemma IP_Mask_IPv4:
  assumes "length m = 4"
  shows "IP_Mask (IPv4 a b c d) m = band [a, b, c, d] m"
proof -
  obtain m0 m1 m2 m3 where "m = [m0, m1, m2, m3]"
    using assms by (rule length_4)
  then show ?thesis
    by (simp add: IP_Mask_def IPv4_def IPv4len_def IPv6len_def v4InV6Prefix_def Let_def)
qed

lemma ipv4_cidr_eq:
  "p \<le> 32 \<Longrightarrow>
     ipv4_cidr a b c d p =
       (IPv4 a b c d, \<lparr>IP = band [a, b, c, d] (CIDRMask_loop 4 p), Mask = CIDRMask_loop 4 p\<rparr>)"
  by (simp add: ipv4_cidr_def CIDRMask_32 IP_Mask_IPv4)

lemma Contains_band:
  assumes "length nn = 4" "length ip = 4" "length m = 4"
  shows "Contains \<lparr>IP = nn, Mask = m\<rparr> ip \<longleftrightarrow> band nn m = band ip m"
proof -
  have nm: "networkNumberAndMask \<lparr>IP = nn, Mask = m\<rparr> = (nn, m)"
    using assms by (auto simp add: networkNumberAndMask_def IPv4len_def IPv6len_def Let_def)
  have "Contains \<lparr>IP = nn, Mask = m\<rparr> ip \<longleftrightarrow>
          (\<forall>i < 4. nn ! i AND m ! i = ip ! i AND m ! i)"
    using assms by (auto simp add: Contains_def nm Let_def list_all_iff)
  also have "\<dots> \<longleftrightarrow> band nn m = band ip m"
    using assms by (auto simp: list_eq_iff_nth_eq band_def)
  finally show ?thesis .
qed

lemma div_pow2_eq_iff:
  fixes x y :: nat
  shows "x div k * k = y div k * k \<longleftrightarrow> k = 0 \<or> x div k = y div k"
  by auto

lemma Contains_ipv4:
  assumes "length nn = 4" "length ip = 4" "p \<le> 32"
  shows "Contains \<lparr>IP = nn, Mask = CIDRMask_loop 4 p\<rparr> ip \<longleftrightarrow>
           ip_val nn div 2 ^ (32 - p) = ip_val ip div 2 ^ (32 - p)"
proof -
  let ?m = "CIDRMask_loop 4 p"
  have "Contains \<lparr>IP = nn, Mask = ?m\<rparr> ip \<longleftrightarrow> band nn ?m = band ip ?m"
    using assms by (simp add: Contains_band)
  also have "\<dots> \<longleftrightarrow> ip_val (band nn ?m) = ip_val (band ip ?m)"
    using assms ip_val_inj [of "band nn ?m" "band ip ?m"] by auto
  also have "\<dots> \<longleftrightarrow> ip_val nn div 2 ^ (32 - p) * 2 ^ (32 - p) = ip_val ip div 2 ^ (32 - p) * 2 ^ (32 - p)"
    using assms ip_val_band_mask [of nn 4 p] ip_val_band_mask [of ip 4 p] by simp
  also have "\<dots> \<longleftrightarrow> ip_val nn div 2 ^ (32 - p) = ip_val ip div 2 ^ (32 - p)"
    by simp
  finally show ?thesis .
qed

section \<open>Properties of \<open>queryDNS\<close>\<close>

lemma sent_append [simp]: "sent (a @ b) = sent a @ sent b"
  by (simp add: sent_def)

lemma sent_simps [simp]:
  "sent [] = []"
  "sent (Sent n srv # tr) = (n, srv) # sent tr"
  "sent (Insert i d q a # tr) = sent tr"
  "sent (Logged m # tr) = sent tr"
  "sent (Dispatched ip # tr) = sent tr"
  by (simp_all add: sent_def)

lemma dispatched_append [simp]: "dispatched (a @ b) = dispatched a @ dispatched b"
  by (simp add: dispatched_def)

lemma dispatched_simps [simp]:
  "dispatched [] = []"
  "dispatched (Sent n srv # tr) = dispatched tr"
  "dispatched (Insert i d q a # tr) = dispatched tr"
  "dispatched (Logged m # tr) = dispatched tr"
  "dispatched (Dispatched ip # tr) = ip # dispatched tr"
  by (simp_all add: dispatched_def)

lemma performDNSQuery_snd:
  "snd (performDNSQuery env fqdn ip s) = emit (Sent (Fqdn fqdn) (server_of env ip)) s"
  by (simp add: performDNSQuery_def server_of_def Let_def split: sum.splits)

lemma performDNSQuery_fst:
  "fst (performDNSQuery env fqdn ip s) =
     (case Exchange env (trace s) (Fqdn fqdn) (server_of env ip) of
        Inl err \<Rightarrow> Inl err
      | Inr rrs \<Rightarrow> Inr (dnsQuestionToString (Fqdn fqdn) TypeA, dnsRRToString rrs))"
  by (simp add: performDNSQuery_def server_of_def Let_def split: sum.splits)

lemma insertIntoDB_trace:
  "trace (snd (insertIntoDB env i d q a s)) = trace s @ [Insert i d q a]"
  by (simp add: insertIntoDB_def emit_def Let_def split: option.splits)

lemma insertIntoDB_rows_fail:
  "fst (insertIntoDB env i d q a s) \<noteq> None \<Longrightarrow> dns_queries (snd (insertIntoDB env i d q a s)) = dns_queries s"
  by (auto simp add: insertIntoDB_def emit_def Let_def split: option.splits)

lemma insertIntoDB_rows_ok:
  "fst (insertIntoDB env i d q a s) = None \<Longrightarrow>
     dns_queries (snd (insertIntoDB env i d q a s)) =
       dns_queries s @ [\<lparr>Timestamp = Now env (trace s @ [Insert i d q a]), Ip = i, Domain = d,
                          Query = q, Answer = a\<rparr>]"
  by (auto simp add: insertIntoDB_def emit_def Let_def split: option.splits)

lemma emit_simps [simp]:
  "trace (emit e s) = trace s @ [e]"
  "dns_queries (emit e s) = dns_queries s"
  by (simp_all add: emit_def)

lemma domain_of_simp [simp]: "domain_of (i, d, q, a) = d"
  by (simp add: domain_of_def)

lemma inserted_append [simp]: "inserted (a @ b) = inserted a @ inserted b"
  by (simp add: inserted_def)

lemma inserted_simps [simp]:
  "inserted [] = []"
  "inserted (Sent n srv # tr) = inserted tr"
  "inserted (Insert i d q a # tr) = (i, d, q, a) # inserted tr"
  "inserted (Logged m # tr) = inserted tr"
  "inserted (Dispatched ip # tr) = inserted tr"
  by (simp_all add: inserted_def)

text \<open>One additional domain: what \<open>queryAdditionalDNS\<close> leaves behind.\<close>

lemma queryAdditionalDNS_fail:
  assumes "isl (Exchange env (trace s) (Fqdn d) (server_of env ip))"
  shows "\<exists>err. queryAdditionalDNS env ip d dictionary s = (Some err, emit (Sent (Fqdn d) (server_of env ip)) s)"
  using assms
  by (cases "Exchange env (trace s) (Fqdn d) (server_of env ip)")
     (simp_all add: queryAdditionalDNS_def performDNSQuery_def server_of_def Let_def)

lemma queryAdditionalDNS_ok:
  assumes "Exchange env (trace s) (Fqdn d) (server_of env ip) = Inr rrs"
  shows "queryAdditionalDNS env ip d dictionary s =
           insertIntoDB env (IP_String env ip) d (dnsQuestionToString (Fqdn d) TypeA) (dnsRRToString rrs)
             (emit (Sent (Fqdn d) (server_of env ip)) s)"
  using assms
  by (simp add: queryAdditionalDNS_def performDNSQuery_def server_of_def Let_def)

lemma queryAdditionalDNS_sent:
  "sent (trace (snd (queryAdditionalDNS env ip d dictionary s))) = sent (trace s) @ [(Fqdn d, server_of env ip)]"
proof (cases "Exchange env (trace s) (Fqdn d) (server_of env ip)")
  case (Inl e)
  then have "isl (Exchange env (trace s) (Fqdn d) (server_of env ip))" by simp
  from queryAdditionalDNS_fail [OF this, of dictionary] show ?thesis by auto
next
  case (Inr rrs)
  show ?thesis
    by (simp add: queryAdditionalDNS_ok [OF Inr] insertIntoDB_trace)
qed

lemma queryAdditionalDNS_inserted:
  "inserted (trace (snd (queryAdditionalDNS env ip d dictionary s))) =
     inserted (trace s) @
       (case Exchange env (trace s) (Fqdn d) (server_of env ip) of
          Inl err \<Rightarrow> []
        | Inr rrs \<Rightarrow> [(IP_String env ip, d, dnsQuestionToString (Fqdn d) TypeA, dnsRRToString rrs)])"
proof (cases "Exchange env (trace s) (Fqdn d) (server_of env ip)")
  case (Inl e)
  then have "isl (Exchange env (trace s) (Fqdn d) (server_of env ip))" by simp
  from queryAdditionalDNS_fail [OF this, of dictionary] show ?thesis using Inl by auto
next
  case (Inr rrs)
  show ?thesis
    by (simp add: queryAdditionalDNS_ok [OF Inr] insertIntoDB_trace Inr)
qed

lemma insertIntoDB_prefix:
  "prefix (dns_queries s) (dns_queries (snd (insertIntoDB env i d q a s)))"
  by (auto simp add: insertIntoDB_def emit_def Let_def split: option.splits)

lemma queryAdditionalDNS_prefix:
  "prefix (dns_queries s) (dns_queries (snd (queryAdditionalDNS env ip d dictionary s)))"
proof (cases "Exchange env (trace s) (Fqdn d) (server_of env ip)")
  case (Inl e)
  then have "isl (Exchange env (trace s) (Fqdn d) (server_of env ip))" by simp
  from queryAdditionalDNS_fail [OF this, of dictionary] show ?thesis by auto
next
  case (Inr rrs)
  show ?thesis
    using insertIntoDB_prefix [of "emit (Sent (Fqdn d) (server_of env ip)) s"]
    by (simp add: queryAdditionalDNS_ok [OF Inr])
qed

text \<open>The loop over the additional domains, turn by turn.\<close>

lemma additional_loop_Cons:
  "additional_loop env ip dictionary (d # ds) s =
     additional_loop env ip dictionary ds (after_additional env ip d dictionary s)"
  by (simp add: after_additional_def split: prod.splits option.splits)

lemma after_additional_sent:
  "sent (trace (after_additional env ip d dictionary s)) = sent (trace s) @ [(Fqdn d, server_of env ip)]"
  using queryAdditionalDNS_sent [of env ip d dictionary s]
  by (auto simp: after_additional_def split: prod.splits option.splits)

lemma after_additional_inserted:
  "inserted (trace (after_additional env ip d dictionary s)) =
     inserted (trace s) @
       (case Exchange env (trace s) (Fqdn d) (server_of env ip) of
          Inl err \<Rightarrow> []
        | Inr rrs \<Rightarrow> [(IP_String env ip, d, dnsQuestionToString (Fqdn d) TypeA, dnsRRToString rrs)])"
  using queryAdditionalDNS_inserted [of env ip d dictionary s]
  by (auto simp: after_additional_def split: prod.splits option.splits)

lemma after_additional_prefix:
  "prefix (dns_queries s) (dns_queries (after_additional env ip d dictionary s))"
  using queryAdditionalDNS_prefix [of s env ip d dictionary]
  by (auto simp: after_additional_def split: prod.splits option.splits)

lemma additional_loop_sent:
  "sent (trace (additional_loop env ip dictionary ds s)) =
     sent (trace s) @ map (\<lambda>d. (Fqdn d, server_of env ip)) ds"
proof (induction ds arbitrary: s)
  case Nil
  show ?case by simp
next
  case (Cons d ds)
  show ?case
    unfolding additional_loop_Cons
    by (simp add: Cons.IH after_additional_sent)
qed

lemma additional_loop_prefix:
  "prefix (dns_queries s) (dns_queries (additional_loop env ip dictionary ds s))"
proof (induction ds arbitrary: s)
  case Nil
  show ?case by simp
next
  case (Cons d ds)
  show ?case
    unfolding additional_loop_Cons
    using Cons.IH [of "after_additional env ip d dictionary s"] after_additional_prefix [of s env ip d dictionary]
    by (rule_tac prefix_order.trans) 
qed

lemma insertIntoDB_rows:
  "\<exists>rows. dns_queries (snd (insertIntoDB env i d q a s)) = dns_queries s @ rows \<and>
          (\<forall>r \<in> set rows. row_key r = (i, d, q, a)) \<and>
          (Preparex env (trace s @ [Insert i d q a]) = None \<and>
           (\<forall>row. Exec env (trace s @ [Insert i d q a]) row = None) \<longrightarrow> length rows = 1)"
  by (auto simp add: insertIntoDB_def emit_def Let_def row_key_def split: option.splits)

lemma after_additional_rows:
  "\<exists>rows. dns_queries (after_additional env ip d dictionary s) = dns_queries s @ rows \<and>
          (\<forall>r \<in> set rows. \<exists>rrs. Exchange env (trace s) (Fqdn d) (server_of env ip) = Inr rrs \<and>
             row_key r = (IP_String env ip, d, dnsQuestionToString (Fqdn d) TypeA, dnsRRToString rrs)) \<and>
          (db_ok env \<and> \<not> isl (Exchange env (trace s) (Fqdn d) (server_of env ip)) \<longrightarrow> length rows = 1)"
proof (cases "Exchange env (trace s) (Fqdn d) (server_of env ip)")
  case (Inl e)
  then have "isl (Exchange env (trace s) (Fqdn d) (server_of env ip))" by simp
  from queryAdditionalDNS_fail [OF this, of dictionary] show ?thesis
    using Inl by (auto simp: after_additional_def)
next
  case (Inr rrs)
  let ?s1 = "emit (Sent (Fqdn d) (server_of env ip)) s"
  let ?q = "dnsQuestionToString (Fqdn d) TypeA"
  let ?a = "dnsRRToString rrs"
  obtain rows where rows:
    "dns_queries (snd (insertIntoDB env (IP_String env ip) d ?q ?a ?s1)) = dns_queries ?s1 @ rows"
    "\<forall>r \<in> set rows. row_key r = (IP_String env ip, d, ?q, ?a)"
    "Preparex env (trace ?s1 @ [Insert (IP_String env ip) d ?q ?a]) = None \<and>
       (\<forall>row. Exec env (trace ?s1 @ [Insert (IP_String env ip) d ?q ?a]) row = None) \<longrightarrow> length rows = 1"
    using insertIntoDB_rows [of env "IP_String env ip" d ?q ?a ?s1] by blast
  have "dns_queries (after_additional env ip d dictionary s) =
          dns_queries (snd (insertIntoDB env (IP_String env ip) d ?q ?a ?s1))"
    by (auto simp: after_additional_def queryAdditionalDNS_ok [OF Inr] split: prod.splits option.splits)
  with rows show ?thesis
    using Inr by (intro exI [of _ rows]) (auto simp: db_ok_def)
qed

lemma additional_loop_inserted:
  "\<exists>ins rows.
     inserted (trace (additional_loop env ip dictionary ds s)) = inserted (trace s) @ ins \<and>
     dns_queries (additional_loop env ip dictionary ds s) = dns_queries s @ rows \<and>
     set (map row_key rows) \<subseteq> set ins \<and>
     subseq (map domain_of ins) ds \<and>
     (\<forall>r \<in> set ins. fst r = IP_String env ip \<and>
                     fst (snd (snd r)) = dnsQuestionToString (Fqdn (domain_of r)) TypeA) \<and>
     (\<forall>d. never_answers env (Fqdn d) (server_of env ip) \<longrightarrow> d \<notin> domain_of ` set ins) \<and>
     (\<forall>d \<in> set ds. answers env (Fqdn d) (server_of env ip) \<longrightarrow> d \<in> domain_of ` set ins)"
proof (induction ds arbitrary: s)
  case Nil
  show ?case by simp
next
  case (Cons d ds)
  let ?s1 = "after_additional env ip d dictionary s"
  obtain ins rows where ins:
    "inserted (trace (additional_loop env ip dictionary ds ?s1)) = inserted (trace ?s1) @ ins"
    "dns_queries (additional_loop env ip dictionary ds ?s1) = dns_queries ?s1 @ rows"
    "set (map row_key rows) \<subseteq> set ins"
    "subseq (map domain_of ins) ds"
    "\<forall>r \<in> set ins. fst r = IP_String env ip \<and>
                         fst (snd (snd r)) = dnsQuestionToString (Fqdn (domain_of r)) TypeA"
    "\<forall>d. never_answers env (Fqdn d) (server_of env ip) \<longrightarrow> d \<notin> domain_of ` set ins"
    "\<forall>d \<in> set ds. answers env (Fqdn d) (server_of env ip) \<longrightarrow> d \<in> domain_of ` set ins"
    using Cons.IH [of ?s1] by blast
  obtain rows1 where rows1:
    "dns_queries ?s1 = dns_queries s @ rows1"
    "\<forall>r \<in> set rows1. \<exists>rrs. Exchange env (trace s) (Fqdn d) (server_of env ip) = Inr rrs \<and>
             row_key r = (IP_String env ip, d, dnsQuestionToString (Fqdn d) TypeA, dnsRRToString rrs)"
    using after_additional_rows [of env ip d dictionary s] by blast
  show ?case
  proof (cases "Exchange env (trace s) (Fqdn d) (server_of env ip)")
    case (Inl e)
    then have na: "\<not> answers env (Fqdn d) (server_of env ip)"
      by (auto simp: answers_def intro: exI [of _ "trace s"])
    have i: "inserted (trace ?s1) = inserted (trace s)"
      by (simp add: after_additional_inserted Inl)
    have "rows1 = []" using rows1(2) Inl by (cases rows1) auto
    with ins na i rows1(1) show ?thesis
      unfolding additional_loop_Cons
      by (intro exI [of _ ins] exI [of _ rows]) (auto simp: subseq_Cons')
  next
    case (Inr rrs)
    then have na: "\<not> never_answers env (Fqdn d) (server_of env ip)"
      by (auto simp: never_answers_def intro: exI [of _ "trace s"])
    let ?r = "(IP_String env ip, d, dnsQuestionToString (Fqdn d) TypeA, dnsRRToString rrs)"
    have i: "inserted (trace ?s1) = inserted (trace s) @ [?r]"
      by (simp add: after_additional_inserted Inr)
    have "\<forall>r \<in> set rows1. row_key r = ?r" using rows1(2) Inr by auto
    with ins na i rows1(1) show ?thesis
      unfolding additional_loop_Cons
      by (intro exI [of _ "?r # ins"] exI [of _ "rows1 @ rows"]) auto
  qed
qed

text \<open>With a database that takes every row, an additional domain that answers gets its row.\<close>

lemma additional_loop_row:
  assumes "db_ok env" "answers env (Fqdn d) (server_of env ip)"
  shows "d \<in> set ds \<Longrightarrow>
           \<exists>row \<in> set (dns_queries (additional_loop env ip dictionary ds s)).
              Ip row = IP_String env ip \<and> Domain row = d \<and>
              Query row = dnsQuestionToString (Fqdn d) TypeA"
proof (induction ds arbitrary: s)
  case Nil
  then show ?case by simp
next
  case (Cons x ds)
  show ?case
  proof (cases "x = d")
    case True
    have ok: "\<not> isl (Exchange env (trace s) (Fqdn d) (server_of env ip))"
      using assms(2) by (simp add: answers_def)
    obtain rows where rows:
      "dns_queries (after_additional env ip d dictionary s) = dns_queries s @ rows"
      "\<forall>r \<in> set rows. \<exists>rrs. Exchange env (trace s) (Fqdn d) (server_of env ip) = Inr rrs \<and>
             row_key r = (IP_String env ip, d, dnsQuestionToString (Fqdn d) TypeA, dnsRRToString rrs)"
      "length rows = 1"
      using after_additional_rows [of env ip d dictionary s] assms(1) ok by blast
    then obtain r where r: "rows = [r]" by (cases rows) auto
    then have k: "Ip r = IP_String env ip \<and> Domain r = d \<and> Query r = dnsQuestionToString (Fqdn d) TypeA"
      using rows(2) by (auto simp: row_key_def)
    have "r \<in> set (dns_queries (after_additional env ip d dictionary s))"
      using rows(1) r by simp
    then have "r \<in> set (dns_queries (additional_loop env ip dictionary ds (after_additional env ip d dictionary s)))"
      using additional_loop_prefix [of "after_additional env ip d dictionary s" env ip dictionary ds]
      by (auto simp: prefix_def)
    then show ?thesis
      unfolding additional_loop_Cons using True k by blast
  next
    case False
    then have "d \<in> set ds" using Cons.prems by simp
    from Cons.IH [OF this] show ?thesis
      unfolding additional_loop_Cons .
  qed
qed

lemma additional_loop_count:
  assumes "db_ok env" "net_ok env"
  shows "length (dns_queries (additional_loop env ip dictionary ds s)) = length (dns_queries s) + length ds"
proof (induction ds arbitrary: s)
  case Nil
  show ?case by simp
next
  case (Cons d ds)
  have ok: "\<not> isl (Exchange env (trace s) (Fqdn d) (server_of env ip))"
    using assms(2) by (simp add: net_ok_def)
  obtain rows where rows:
    "dns_queries (after_additional env ip d dictionary s) = dns_queries s @ rows" "length rows = 1"
    using after_additional_rows [of env ip d dictionary s] assms(1) ok by blast
  show ?case
    unfolding additional_loop_Cons
    by (simp add: Cons.IH rows)
qed

lemma after_additional_trace_prefix:
  "prefix (trace s) (trace (after_additional env ip d dictionary s))"
  by (auto simp: after_additional_def queryAdditionalDNS_def performDNSQuery_def insertIntoDB_def
        emit_def Let_def prefix_def split: prod.splits option.splits sum.splits)

lemma after_additional_dispatched:
  "dispatched (trace (after_additional env ip d dictionary s)) = dispatched (trace s)"
  by (auto simp: after_additional_def queryAdditionalDNS_def performDNSQuery_def insertIntoDB_def
        emit_def Let_def split: prod.splits option.splits sum.splits)

lemma additional_loop_trace_prefix:
  "prefix (trace s) (trace (additional_loop env ip dictionary ds s))"
proof (induction ds arbitrary: s)
  case Nil
  show ?case by simp
next
  case (Cons d ds)
  show ?case
    unfolding additional_loop_Cons
    using after_additional_trace_prefix [of s env ip d dictionary]
      Cons.IH [of "after_additional env ip d dictionary s"]
    by (rule prefix_order.trans)
qed

lemma additional_loop_dispatched:
  "dispatched (trace (additional_loop env ip dictionary ds s)) = dispatched (trace s)"
proof (induction ds arbitrary: s)
  case Nil
  show ?case by simp
next
  case (Cons d ds)
  show ?case
    unfolding additional_loop_Cons
    by (simp add: Cons.IH after_additional_dispatched)
qed

text \<open>The primary step of \<open>queryDNS\<close>, by the outcome of the exchange.\<close>

lemma queryDNS_exchange_fails:
  assumes "Exchange env (trace s) (primary_name env ip domain dictionary) (server_of env ip) = Inl err"
  shows "queryDNS env ip domain domains dictionary s =
           (Some (''query request failed: '' @ err),
            emit (Sent (primary_name env ip domain dictionary) (server_of env ip)) s)"
  using assms
  by (simp add: queryDNS_def performDNSQuery_def primary_name_def server_of_def Let_def)

lemma queryDNS_exchange_ok:
  assumes "Exchange env (trace s) (primary_name env ip domain dictionary) (server_of env ip) = Inr rrs"
  shows "queryDNS env ip domain domains dictionary s =
           (case primary_insert env ip domain dictionary rrs s of
              (Some err, s2) \<Rightarrow> (Some err, s2)
            | (None, s2) \<Rightarrow>
                (None, if domains \<noteq> [] then additional_loop env ip dictionary (Split domains CHR '','') s2
                       else s2))"
  using assms
  by (simp add: queryDNS_def performDNSQuery_def primary_name_def server_of_def primary_insert_def Let_def)

lemma primary_insert_trace:
  "trace (snd (primary_insert env ip domain dictionary rrs s)) =
     trace s @ [Sent (primary_name env ip domain dictionary) (server_of env ip),
                Insert (IP_String env ip) domain
                  (dnsQuestionToString (primary_name env ip domain dictionary) TypeA) (dnsRRToString rrs)]"
  by (simp add: primary_insert_def insertIntoDB_trace)

lemma primary_insert_rows_fail:
  "fst (primary_insert env ip domain dictionary rrs s) \<noteq> None \<Longrightarrow>
     dns_queries (snd (primary_insert env ip domain dictionary rrs s)) = dns_queries s"
  unfolding primary_insert_def
  using insertIntoDB_rows_fail [of env "IP_String env ip" domain _ _ "emit _ s"] by simp

lemma primary_insert_rows_ok:
  "fst (primary_insert env ip domain dictionary rrs s) = None \<Longrightarrow>
     dns_queries (snd (primary_insert env ip domain dictionary rrs s)) =
       dns_queries s @
         [\<lparr>Timestamp = Now env (trace (snd (primary_insert env ip domain dictionary rrs s))),
           Ip = IP_String env ip, Domain = domain,
           Query = dnsQuestionToString (primary_name env ip domain dictionary) TypeA,
           Answer = dnsRRToString rrs\<rparr>]"
  unfolding primary_insert_def
  using insertIntoDB_rows_ok [of env "IP_String env ip" domain _ _ "emit _ s"]
  by (simp add: insertIntoDB_trace)

lemma primary_query_fails_iff:
  "primary_query_fails env ip domain dictionary s \<longleftrightarrow>
     (\<exists>err. Exchange env (trace s) (primary_name env ip domain dictionary) (server_of env ip) = Inl err)"
  by (cases "Exchange env (trace s) (primary_name env ip domain dictionary) (server_of env ip)")
     (simp_all add: primary_query_fails_def)

lemma primary_insert_fails_iff:
  "primary_insert_fails env ip domain dictionary s \<longleftrightarrow>
     (\<exists>rrs. Exchange env (trace s) (primary_name env ip domain dictionary) (server_of env ip) = Inr rrs \<and>
            fst (primary_insert env ip domain dictionary rrs s) \<noteq> None)"
  by (cases "Exchange env (trace s) (primary_name env ip domain dictionary) (server_of env ip)")
     (simp_all add: primary_insert_fails_def performDNSQuery_def primary_name_def server_of_def
        primary_insert_def Let_def)

text \<open>A failed primary step ends \<open>queryDNS\<close>.\<close>

lemma queryDNS_fails:
  assumes "primary_query_fails env ip domain dictionary s \<or> primary_insert_fails env ip domain dictionary s"
  shows "fst (queryDNS env ip domain domains dictionary s) \<noteq> None"
    and "sent (trace (snd (queryDNS env ip domain domains dictionary s))) =
           sent (trace s) @ [(primary_name env ip domain dictionary, server_of env ip)]"
    and "dns_queries (snd (queryDNS env ip domain domains dictionary s)) = dns_queries s"
proof -
  let ?q = "queryDNS env ip domain domains dictionary s"
  have "fst ?q \<noteq> None \<and>
        sent (trace (snd ?q)) = sent (trace s) @ [(primary_name env ip domain dictionary, server_of env ip)] \<and>
        dns_queries (snd ?q) = dns_queries s"
  proof (cases "Exchange env (trace s) (primary_name env ip domain dictionary) (server_of env ip)")
    case (Inl err)
    show ?thesis by (simp add: queryDNS_exchange_fails [OF Inl])
  next
    case (Inr rrs)
    then have "\<not> primary_query_fails env ip domain dictionary s"
      by (simp add: primary_query_fails_iff)
    with assms have f: "fst (primary_insert env ip domain dictionary rrs s) \<noteq> None"
      using Inr by (simp add: primary_insert_fails_iff)
    then obtain e s2 where i: "primary_insert env ip domain dictionary rrs s = (Some e, s2)"
      by (cases "primary_insert env ip domain dictionary rrs s") auto
    have "trace s2 = trace s @ [Sent (primary_name env ip domain dictionary) (server_of env ip),
                Insert (IP_String env ip) domain
                  (dnsQuestionToString (primary_name env ip domain dictionary) TypeA) (dnsRRToString rrs)]"
      using primary_insert_trace [of env ip domain dictionary rrs s] i by simp
    moreover have "dns_queries s2 = dns_queries s"
      using primary_insert_rows_fail [OF f] i by simp
    ultimately show ?thesis
      by (simp add: queryDNS_exchange_ok [OF Inr] i)
  qed
  then show "fst ?q \<noteq> None"
    and "sent (trace (snd ?q)) = sent (trace s) @ [(primary_name env ip domain dictionary, server_of env ip)]"
    and "dns_queries (snd ?q) = dns_queries s"
    by simp_all
qed

text \<open>A successful primary step is followed by the loop over the additional domains.\<close>

lemma queryDNS_succeeds:
  assumes "\<not> primary_query_fails env ip domain dictionary s"
      and "\<not> primary_insert_fails env ip domain dictionary s"
  obtains rrs s2 where
    "Exchange env (trace s) (primary_name env ip domain dictionary) (server_of env ip) = Inr rrs"
    "primary_insert env ip domain dictionary rrs s = (None, s2)"
    "queryDNS env ip domain domains dictionary s =
       (None, if domains \<noteq> [] then additional_loop env ip dictionary (Split domains CHR '','') s2 else s2)"
proof -
  obtain rrs where x: "Exchange env (trace s) (primary_name env ip domain dictionary) (server_of env ip) = Inr rrs"
    using assms(1)
    by (cases "Exchange env (trace s) (primary_name env ip domain dictionary) (server_of env ip)")
       (auto simp: primary_query_fails_iff)
  have "fst (primary_insert env ip domain dictionary rrs s) = None"
    using assms(2) x by (simp add: primary_insert_fails_iff)
  then obtain s2 where i: "primary_insert env ip domain dictionary rrs s = (None, s2)"
    by (cases "primary_insert env ip domain dictionary rrs s") auto
  show ?thesis
    by (rule that [OF x i]) (simp add: queryDNS_exchange_ok [OF x] i)
qed

text \<open>The questions one address is asked.\<close>

lemma queryDNS_sent:
  "sent (trace (snd (queryDNS env ip domain domains dictionary s))) =
     sent (trace s) @ (primary_name env ip domain dictionary, server_of env ip) #
       (if primary_query_fails env ip domain dictionary s \<or> primary_insert_fails env ip domain dictionary s
           \<or> domains = []
        then [] else map (\<lambda>d. (Fqdn d, server_of env ip)) (Split domains CHR '',''))"
proof (cases "primary_query_fails env ip domain dictionary s \<or> primary_insert_fails env ip domain dictionary s")
  case True
  show ?thesis using True by (auto simp add: queryDNS_fails(2) [OF True])
next
  case False
  then obtain rrs s2 where
    i: "primary_insert env ip domain dictionary rrs s = (None, s2)" and
    q: "queryDNS env ip domain domains dictionary s =
       (None, if domains \<noteq> [] then additional_loop env ip dictionary (Split domains CHR '','') s2 else s2)"
    using queryDNS_succeeds [of env ip domain dictionary s domains] by metis
  have "sent (trace s2) = sent (trace s) @ [(primary_name env ip domain dictionary, server_of env ip)]"
    using primary_insert_trace [of env ip domain dictionary rrs s] i by simp
  then show ?thesis using False q by (simp add: additional_loop_sent)
qed

lemma queryDNS_dispatched:
  "dispatched (trace (snd (queryDNS env ip domain domains dictionary s))) = dispatched (trace s)"
proof (cases "Exchange env (trace s) (primary_name env ip domain dictionary) (server_of env ip)")
  case (Inl err)
  show ?thesis by (simp add: queryDNS_exchange_fails [OF Inl])
next
  case (Inr rrs)
  have "dispatched (trace (snd (primary_insert env ip domain dictionary rrs s))) = dispatched (trace s)"
    by (simp add: primary_insert_trace)
  then show ?thesis
    by (cases "primary_insert env ip domain dictionary rrs s")
       (auto simp: queryDNS_exchange_ok [OF Inr] additional_loop_dispatched split: option.splits)
qed

lemma queryDNS_rows_prefix:
  "prefix (dns_queries s) (dns_queries (snd (queryDNS env ip domain domains dictionary s)))"
proof (cases "Exchange env (trace s) (primary_name env ip domain dictionary) (server_of env ip)")
  case (Inl err)
  show ?thesis by (simp add: queryDNS_exchange_fails [OF Inl])
next
  case (Inr rrs)
  have p: "prefix (dns_queries s) (dns_queries (snd (primary_insert env ip domain dictionary rrs s)))"
    unfolding primary_insert_def
    using insertIntoDB_prefix [of "emit (Sent (primary_name env ip domain dictionary) (server_of env ip)) s"]
    by simp
  show ?thesis
  proof (cases "primary_insert env ip domain dictionary rrs s")
    case (Pair r s2)
    have "prefix (dns_queries s2) (dns_queries (additional_loop env ip dictionary (Split domains CHR '','') s2))"
      by (rule additional_loop_prefix)
    with p Pair have "prefix (dns_queries s) (dns_queries (additional_loop env ip dictionary (Split domains CHR '','') s2))"
      by (auto intro: prefix_order.trans)
    with p Pair show ?thesis
      by (auto simp: queryDNS_exchange_ok [OF Inr] split: option.splits)
  qed
qed

lemma queryDNS_count:
  assumes "db_ok env" "net_ok env"
  shows "length (dns_queries (snd (queryDNS env ip domain domains dictionary s))) =
           length (dns_queries s) + 1 + (if domains = [] then 0 else length (Split domains CHR '','')) \<and>
         fst (queryDNS env ip domain domains dictionary s) = None"
proof -
  have a: "\<not> primary_query_fails env ip domain dictionary s"
    using assms(2) by (simp add: primary_query_fails_def net_ok_def)
  have "\<And>rrs. fst (primary_insert env ip domain dictionary rrs s) = None"
    using assms(1) by (simp add: primary_insert_def insertIntoDB_def db_ok_def Let_def)
  then have b: "\<not> primary_insert_fails env ip domain dictionary s"
    by (simp add: primary_insert_fails_iff)
  obtain rrs s2 where
    i: "primary_insert env ip domain dictionary rrs s = (None, s2)" and
    q: "queryDNS env ip domain domains dictionary s =
       (None, if domains \<noteq> [] then additional_loop env ip dictionary (Split domains CHR '','') s2 else s2)"
    using queryDNS_succeeds [OF a b, of domains] by metis
  have "length (dns_queries s2) = length (dns_queries s) + 1"
    using primary_insert_rows_ok [of env ip domain dictionary rrs s] i by simp
  then show ?thesis
    using q by (simp add: additional_loop_count [OF assms])
qed

text \<open>The task of one address.\<close>

lemma task_eq:
  "task env fl dictionary ip s =
     (let r = queryDNS env ip (flag_domain fl) (flag_domains fl) dictionary s
      in case fst r of
           Some err \<Rightarrow> emit (Logged (''Error querying DNS: '' @ err @ [CHR 0x0A])) (snd r)
         | None \<Rightarrow> snd r)"
  by (simp add: task_def Let_def split: prod.splits option.splits)

lemma task_sent:
  "sent (trace (task env fl dictionary ip s)) =
     sent (trace (snd (queryDNS env ip (flag_domain fl) (flag_domains fl) dictionary s)))"
  by (simp add: task_eq Let_def split: option.splits)

lemma task_dispatched:
  "dispatched (trace (task env fl dictionary ip s)) = dispatched (trace s)"
  by (simp add: task_eq Let_def queryDNS_dispatched split: option.splits)

lemma task_rows:
  "dns_queries (task env fl dictionary ip s) =
     dns_queries (snd (queryDNS env ip (flag_domain fl) (flag_domains fl) dictionary s))"
  by (simp add: task_eq Let_def split: option.splits)

subsection \<open>Names and addresses as text\<close>

lemma Fqdn_prefix: "prefix s (Fqdn s)"
  by (simp add: Fqdn_def)

lemma Fqdn_empty: "Fqdn [] = ''.''"
  by (simp add: Fqdn_def IsFqdn_def)

lemma Split_not_Nil [simp]: "Split s c \<noteq> []"
  by (induction s) (auto split: list.splits)

lemma Split_snoc_sep: "Split (s @ [c]) c = Split s c @ [[]]"
  by (induction s) (auto split: list.splits)

lemma Split_length: "length (Split s c) = Suc (count_list s c)"
  by (induction s) (auto split: list.splits)

lemma digit_set: "n < 10 \<Longrightarrow> digit n \<in> set ''0123456789''"
  unfolding digit_def by (rule nth_mem) simp

lemma ubtoa_digits:
  assumes "c \<in> set (ubtoa v)"
  shows "\<exists>n<10. c = digit n"
proof -
  have "unat v < 256" using unsigned_less [of v] by simp
  then have a: "unat v div 100 < 10" by simp
  have b: "unat v < 100 \<Longrightarrow> unat v div 10 < 10" by simp
  have m: "\<And>k :: nat. k < 10 \<Longrightarrow> \<exists>n<10. digit k = digit n" by blast
  show ?thesis
    using assms a b
    by (auto simp: ubtoa_def Let_def split: if_splits intro!: m)
qed

lemma ubtoa_no_colon: "CHR '':'' \<notin> set (ubtoa v)"
proof
  assume "CHR '':'' \<in> set (ubtoa v)"
  then obtain n where "n < 10" "CHR '':'' = digit n"
    using ubtoa_digits by blast
  then have "CHR '':'' \<in> set ''0123456789''"
    using digit_set [of n] by simp
  then show False by simp
qed

lemma IP_String_4:
  assumes "length ip = 4"
  shows "CHR '':'' \<notin> set (IP_String env ip)"
  using assms by (simp add: IP_String_def To4_def IPv4len_def Let_def ubtoa_no_colon)

lemma server_of_4: "length ip = 4 \<Longrightarrow> server_of env ip = IP_String env ip @ '':53''"
  by (simp add: server_of_def JoinHostPort_def IP_String_4)

subsection \<open>Failed writes\<close>

lemma logged_append [simp]: "logged (a @ b) = logged a @ logged b"
  by (simp add: logged_def)

lemma logged_simps [simp]:
  "logged [] = []"
  "logged (Sent n srv # tr) = logged tr"
  "logged (Insert i d q a # tr) = logged tr"
  "logged (Logged m # tr) = m # logged tr"
  "logged (Dispatched ip # tr) = logged tr"
  by (simp_all add: logged_def)

text \<open>What one call of \<open>insertIntoDB\<close> does, by what the database does.\<close>

lemma insertIntoDB_cases:
  "(\<exists>err. insertIntoDB env i d q a s = (Some err, emit (Insert i d q a) s) \<and>
          (Preparex env (trace s @ [Insert i d q a]) \<noteq> None \<or>
           (\<exists>row. Domain row = d \<and> Exec env (trace s @ [Insert i d q a]) row \<noteq> None))) \<or>
   (\<exists>row. insertIntoDB env i d q a s =
            (None, (emit (Insert i d q a) s)\<lparr>dns_queries := dns_queries s @ [row]\<rparr>) \<and>
          row_key row = (i, d, q, a) \<and>
          Preparex env (trace s @ [Insert i d q a]) = None \<and>
          Exec env (trace s @ [Insert i d q a]) row = None)"
proof -
  let ?tr = "trace s @ [Insert i d q a]"
  let ?row = "\<lparr>Timestamp = Now env ?tr, Ip = i, Domain = d, Query = q, Answer = a\<rparr>"
  have d: "Domain ?row = d" by simp
  show ?thesis
  proof (cases "Preparex env ?tr")
    case (Some e)
    then show ?thesis by (simp add: insertIntoDB_def emit_def Let_def)
  next
    case None
    show ?thesis
    proof (cases "Exec env ?tr ?row")
      case (Some e)
      then have "\<exists>row. Domain row = d \<and> Exec env ?tr row \<noteq> None"
        using d by (intro exI [of _ ?row]) simp
      then show ?thesis using None Some by (simp add: insertIntoDB_def emit_def Let_def)
    next
      case N: None
      have "insertIntoDB env i d q a s =
            (None, (emit (Insert i d q a) s)\<lparr>dns_queries := dns_queries s @ [?row]\<rparr>) \<and>
          row_key ?row = (i, d, q, a) \<and> Preparex env ?tr = None \<and> Exec env ?tr ?row = None"
        using None N by (simp add: insertIntoDB_def emit_def Let_def row_key_def)
      then show ?thesis by blast
    qed
  qed
qed

text \<open>One turn of the loop over the additional domains, for a server that answers.\<close>

lemma after_additional_answered:
  assumes "Exchange env (trace s) (Fqdn d) (server_of env ip) = Inr rrs"
  shows "\<exists>evs rows.
           trace (after_additional env ip d dictionary s) =
             trace s @ Sent (Fqdn d) (server_of env ip) #
               Insert (IP_String env ip) d (dnsQuestionToString (Fqdn d) TypeA) (dnsRRToString rrs) # evs \<and>
           dns_queries (after_additional env ip d dictionary s) = dns_queries s @ rows \<and>
           sent evs = [] \<and> inserted evs = [] \<and>
           (\<forall>r \<in> set rows. Domain r = d \<and> Ip r = IP_String env ip) \<and>
           (refuses env d \<longrightarrow> rows = [] \<and>
              (\<exists>err. logged evs = [''Error querying additional DNS: '' @ err @ [CHR 0x0A]])) \<and>
           (stores env d \<longrightarrow> rows \<noteq> [])"
proof -
  let ?s1 = "emit (Sent (Fqdn d) (server_of env ip)) s"
  let ?q = "dnsQuestionToString (Fqdn d) TypeA"
  let ?a = "dnsRRToString rrs"
  let ?i = "IP_String env ip"
  have qa: "queryAdditionalDNS env ip d dictionary s = insertIntoDB env ?i d ?q ?a ?s1"
    by (rule queryAdditionalDNS_ok [OF assms])
  consider
    (fail) err where "insertIntoDB env ?i d ?q ?a ?s1 = (Some err, emit (Insert ?i d ?q ?a) ?s1)"
      "Preparex env (trace ?s1 @ [Insert ?i d ?q ?a]) \<noteq> None \<or>
       (\<exists>row. Domain row = d \<and> Exec env (trace ?s1 @ [Insert ?i d ?q ?a]) row \<noteq> None)"
  | (ok) row where "insertIntoDB env ?i d ?q ?a ?s1 =
            (None, (emit (Insert ?i d ?q ?a) ?s1)\<lparr>dns_queries := dns_queries ?s1 @ [row]\<rparr>)"
      "row_key row = (?i, d, ?q, ?a)"
      "Preparex env (trace ?s1 @ [Insert ?i d ?q ?a]) = None"
      "Exec env (trace ?s1 @ [Insert ?i d ?q ?a]) row = None"
    using insertIntoDB_cases [of env ?i d ?q ?a ?s1] by blast
  then show ?thesis
  proof cases
    case fail
    have "\<not> stores env d" using fail(2) by (auto simp: stores_def)
    then show ?thesis
      using fail(1)
      by (intro exI [of _ "[Logged (''Error querying additional DNS: '' @ err @ [CHR 0x0A])]"] exI [of _ "[]"])
         (simp add: after_additional_def qa)
  next
    case ok
    have d: "Domain row = d" "Ip row = ?i" using ok(2) by (simp_all add: row_key_def)
    have "\<not> refuses env d" using ok(3,4) d(1) by (auto simp: refuses_def)
    then show ?thesis
      using ok(1) d
      by (intro exI [of _ "[]"] exI [of _ "[row]"]) (simp add: after_additional_def qa)
  qed
qed

lemma after_additional_unanswered:
  assumes "Exchange env (trace s) (Fqdn d) (server_of env ip) = Inl e"
  shows "trace (after_additional env ip d dictionary s) =
           trace s @ [Sent (Fqdn d) (server_of env ip),
                      Logged (''Error querying additional DNS: '' @ e @ [CHR 0x0A])] \<and>
         dns_queries (after_additional env ip d dictionary s) = dns_queries s"
  using assms
  by (simp add: after_additional_def queryAdditionalDNS_def performDNSQuery_def server_of_def Let_def)

text \<open>
  The whole loop: every domain is asked; every answer is handed to \<open>insertIntoDB\<close>; a
  refused row is logged and not stored; and none of this depends on what happened to
  the rows of the other domains.
\<close>

lemma additional_loop_events:
  "\<exists>evs rows.
     trace (additional_loop env ip dictionary ds s) = trace s @ evs \<and>
     dns_queries (additional_loop env ip dictionary ds s) = dns_queries s @ rows \<and>
     sent evs = map (\<lambda>d. (Fqdn d, server_of env ip)) ds \<and>
     (\<forall>d \<in> set ds. answers env (Fqdn d) (server_of env ip) \<longrightarrow>
        (\<exists>a. (IP_String env ip, d, dnsQuestionToString (Fqdn d) TypeA, a) \<in> set (inserted evs))) \<and>
     (\<forall>d \<in> set ds. answers env (Fqdn d) (server_of env ip) \<and> refuses env d \<longrightarrow>
        (\<exists>err. ''Error querying additional DNS: '' @ err @ [CHR 0x0A] \<in> set (logged evs))) \<and>
     (\<forall>d. refuses env d \<longrightarrow> d \<notin> Domain ` set rows) \<and>
     (\<forall>d \<in> set ds. answers env (Fqdn d) (server_of env ip) \<and> stores env d \<longrightarrow>
        d \<in> Domain ` set rows)"
proof (induction ds arbitrary: s)
  case Nil
  show ?case by simp
next
  case (Cons x ds)
  let ?s1 = "after_additional env ip x dictionary s"
  let ?srv = "server_of env ip"
  obtain evs rows where IH:
    "trace (additional_loop env ip dictionary ds ?s1) = trace ?s1 @ evs"
    "dns_queries (additional_loop env ip dictionary ds ?s1) = dns_queries ?s1 @ rows"
    "sent evs = map (\<lambda>d. (Fqdn d, ?srv)) ds"
    "\<forall>d \<in> set ds. answers env (Fqdn d) ?srv \<longrightarrow>
        (\<exists>a. (IP_String env ip, d, dnsQuestionToString (Fqdn d) TypeA, a) \<in> set (inserted evs))"
    "\<forall>d \<in> set ds. answers env (Fqdn d) ?srv \<and> refuses env d \<longrightarrow>
        (\<exists>err. ''Error querying additional DNS: '' @ err @ [CHR 0x0A] \<in> set (logged evs))"
    "\<forall>d. refuses env d \<longrightarrow> d \<notin> Domain ` set rows"
    "\<forall>d \<in> set ds. answers env (Fqdn d) ?srv \<and> stores env d \<longrightarrow> d \<in> Domain ` set rows"
    using Cons.IH [of ?s1] by blast
  show ?case
  proof (cases "Exchange env (trace s) (Fqdn x) ?srv")
    case (Inl e)
    then have na: "\<not> answers env (Fqdn x) ?srv"
      by (auto simp: answers_def intro: exI [of _ "trace s"])
    have t: "trace ?s1 = trace s @ [Sent (Fqdn x) ?srv,
                      Logged (''Error querying additional DNS: '' @ e @ [CHR 0x0A])]"
      and r: "dns_queries ?s1 = dns_queries s"
      using after_additional_unanswered [OF Inl, of dictionary] by simp_all
    show ?thesis
      unfolding additional_loop_Cons
      using IH na t r
      by (intro exI [of _ "[Sent (Fqdn x) ?srv,
                      Logged (''Error querying additional DNS: '' @ e @ [CHR 0x0A])] @ evs"]
            exI [of _ rows]) auto
  next
    case (Inr rrs)
    obtain evs1 rows1 where T:
      "trace ?s1 = trace s @ Sent (Fqdn x) ?srv #
               Insert (IP_String env ip) x (dnsQuestionToString (Fqdn x) TypeA) (dnsRRToString rrs) # evs1"
      "dns_queries ?s1 = dns_queries s @ rows1"
      "sent evs1 = []" "inserted evs1 = []"
      "\<forall>r \<in> set rows1. Domain r = x \<and> Ip r = IP_String env ip"
      "refuses env x \<longrightarrow> rows1 = [] \<and>
              (\<exists>err. logged evs1 = [''Error querying additional DNS: '' @ err @ [CHR 0x0A]])"
      "stores env x \<longrightarrow> rows1 \<noteq> []"
      using after_additional_answered [OF Inr, of dictionary] by blast
    let ?E = "Sent (Fqdn x) ?srv #
               Insert (IP_String env ip) x (dnsQuestionToString (Fqdn x) TypeA) (dnsRRToString rrs) # evs1 @ evs"
    have 1: "trace (additional_loop env ip dictionary ds ?s1) = trace s @ ?E"
      using IH(1) T(1) by simp
    have 2: "dns_queries (additional_loop env ip dictionary ds ?s1) = dns_queries s @ (rows1 @ rows)"
      using IH(2) T(2) by simp
    have 3: "sent ?E = map (\<lambda>d. (Fqdn d, ?srv)) (x # ds)"
      using IH(3) T(3) by simp
    have 4: "\<forall>d \<in> set (x # ds). answers env (Fqdn d) ?srv \<longrightarrow>
        (\<exists>a. (IP_String env ip, d, dnsQuestionToString (Fqdn d) TypeA, a) \<in> set (inserted ?E))"
      using IH(4) by auto
    have 5: "\<forall>d \<in> set (x # ds). answers env (Fqdn d) ?srv \<and> refuses env d \<longrightarrow>
        (\<exists>err. ''Error querying additional DNS: '' @ err @ [CHR 0x0A] \<in> set (logged ?E))"
      using IH(5) T(6) by auto
    have 6: "\<forall>d. refuses env d \<longrightarrow> d \<notin> Domain ` set (rows1 @ rows)"
      using IH(6) T(5,6) by auto
    have 7: "\<forall>d \<in> set (x # ds). answers env (Fqdn d) ?srv \<and> stores env d \<longrightarrow>
        d \<in> Domain ` set (rows1 @ rows)"
    proof
      fix d assume d: "d \<in> set (x # ds)"
      show "answers env (Fqdn d) ?srv \<and> stores env d \<longrightarrow> d \<in> Domain ` set (rows1 @ rows)"
      proof (cases "d = x")
        case True
        show ?thesis
        proof
          assume "answers env (Fqdn d) ?srv \<and> stores env d"
          then have "rows1 \<noteq> []" using T(7) True by simp
          then obtain r where "r \<in> set rows1" by (cases rows1) auto
          then show "d \<in> Domain ` set (rows1 @ rows)" using T(5) True by force
        qed
      next
        case False
        then show ?thesis using d IH(7) by auto
      qed
    qed
    show ?thesis
      unfolding additional_loop_Cons
      using 1 2 3 4 5 6 7 by blast
  qed
qed

text \<open>The events of \<open>queryDNS\<close>: the primary question, then the record of its answer.\<close>

lemma queryDNS_events:
  "\<exists>evs. trace (snd (queryDNS env ip domain domains dictionary s)) = trace s @ evs \<and>
         (primary_name env ip domain dictionary, server_of env ip) \<in> set (sent evs) \<and>
         dispatched evs = [] \<and>
         (answers env (primary_name env ip domain dictionary) (server_of env ip) \<longrightarrow>
            (\<exists>a. (IP_String env ip, domain,
                   dnsQuestionToString (primary_name env ip domain dictionary) TypeA, a)
                    \<in> set (inserted evs)))"
proof (cases "Exchange env (trace s) (primary_name env ip domain dictionary) (server_of env ip)")
  case (Inl err)
  then have "\<not> answers env (primary_name env ip domain dictionary) (server_of env ip)"
    by (auto simp: answers_def intro: exI [of _ "trace s"])
  then show ?thesis
    by (intro exI [of _ "[Sent (primary_name env ip domain dictionary) (server_of env ip)]"])
       (simp add: queryDNS_exchange_fails [OF Inl])
next
  case (Inr rrs)
  let ?P = "[Sent (primary_name env ip domain dictionary) (server_of env ip),
             Insert (IP_String env ip) domain
               (dnsQuestionToString (primary_name env ip domain dictionary) TypeA) (dnsRRToString rrs)]"
  obtain r s2 where i: "primary_insert env ip domain dictionary rrs s = (r, s2)"
    by (cases "primary_insert env ip domain dictionary rrs s")
  have t2: "trace s2 = trace s @ ?P"
    using primary_insert_trace [of env ip domain dictionary rrs s] i by simp
  obtain evs where l:
    "trace (additional_loop env ip dictionary (Split domains CHR '','') s2) = trace s2 @ evs"
    using additional_loop_trace_prefix [of s2 env ip dictionary "Split domains CHR '',''"]
    by (auto simp: prefix_def)
  have d: "dispatched evs = []"
    using additional_loop_dispatched [of env ip dictionary "Split domains CHR '',''" s2] l by simp
  have q: "snd (queryDNS env ip domain domains dictionary s) =
             (if r = None \<and> domains \<noteq> [] then additional_loop env ip dictionary (Split domains CHR '','') s2
              else s2)"
    using queryDNS_exchange_ok [OF Inr, of domains] i by (auto split: option.splits)
  show ?thesis
  proof (cases "r = None \<and> domains \<noteq> []")
    case True
    then show ?thesis
      using q l t2 d by (intro exI [of _ "?P @ evs"]) auto
  next
    case False
    have "snd (queryDNS env ip domain domains dictionary s) = s2"
      unfolding q by (rule if_not_P [OF False])
    then show ?thesis
      using t2 by (intro exI [of _ ?P]) simp
  qed
qed

text \<open>A task whose primary record cannot be written: one question, one record refused, one line logged.\<close>

lemma task_primary_write_fails:
  assumes "primary_insert_fails env ip (flag_domain fl) dictionary s"
  shows "\<exists>a err. trace (task env fl dictionary ip s) =
           trace s @ [Sent (primary_name env ip (flag_domain fl) dictionary) (server_of env ip),
                      Insert (IP_String env ip) (flag_domain fl)
                        (dnsQuestionToString (primary_name env ip (flag_domain fl) dictionary) TypeA) a,
                      Logged (''Error querying DNS: '' @ err @ [CHR 0x0A])] \<and>
         dns_queries (task env fl dictionary ip s) = dns_queries s"
proof -
  obtain rrs where x: "Exchange env (trace s) (primary_name env ip (flag_domain fl) dictionary) (server_of env ip) = Inr rrs"
    and f: "fst (primary_insert env ip (flag_domain fl) dictionary rrs s) \<noteq> None"
    using assms by (auto simp: primary_insert_fails_iff)
  obtain e s2 where i: "primary_insert env ip (flag_domain fl) dictionary rrs s = (Some e, s2)"
    using f by (cases "primary_insert env ip (flag_domain fl) dictionary rrs s") auto
  have t2: "trace s2 = trace s @ [Sent (primary_name env ip (flag_domain fl) dictionary) (server_of env ip),
                Insert (IP_String env ip) (flag_domain fl)
                  (dnsQuestionToString (primary_name env ip (flag_domain fl) dictionary) TypeA) (dnsRRToString rrs)]"
    using primary_insert_trace [of env ip "flag_domain fl" dictionary rrs s] i by simp
  have r2: "dns_queries s2 = dns_queries s"
    using primary_insert_rows_fail [OF f] i by simp
  have "queryDNS env ip (flag_domain fl) (flag_domains fl) dictionary s = (Some e, s2)"
    by (simp add: queryDNS_exchange_ok [OF x] i)
  then have "task env fl dictionary ip s = emit (Logged (''Error querying DNS: '' @ e @ [CHR 0x0A])) s2"
    by (simp add: task_def)
  then show ?thesis using t2 r2 by simp
qed

text \<open>A task whose primary record is written goes on to the loop over the additional domains.\<close>

lemma task_after_primary:
  assumes "\<not> primary_query_fails env ip (flag_domain fl) dictionary s"
      and "\<not> primary_insert_fails env ip (flag_domain fl) dictionary s"
      and "flag_domains fl \<noteq> []"
  shows "\<exists>a row s2.
           trace s2 = trace s @ [Sent (primary_name env ip (flag_domain fl) dictionary) (server_of env ip),
                        Insert (IP_String env ip) (flag_domain fl)
                          (dnsQuestionToString (primary_name env ip (flag_domain fl) dictionary) TypeA) a] \<and>
           dns_queries s2 = dns_queries s @ [row] \<and>
           task env fl dictionary ip s =
             additional_loop env ip dictionary (Split (flag_domains fl) CHR '','') s2"
proof -
  obtain rrs s2 where x:
    "primary_insert env ip (flag_domain fl) dictionary rrs s = (None, s2)"
    "queryDNS env ip (flag_domain fl) (flag_domains fl) dictionary s =
       (None, if flag_domains fl \<noteq> [] then additional_loop env ip dictionary (Split (flag_domains fl) CHR '','') s2 else s2)"
    using queryDNS_succeeds [OF assms(1,2), of "flag_domains fl"] by metis
  have t: "trace s2 = trace s @ [Sent (primary_name env ip (flag_domain fl) dictionary) (server_of env ip),
                        Insert (IP_String env ip) (flag_domain fl)
                          (dnsQuestionToString (primary_name env ip (flag_domain fl) dictionary) TypeA)
                          (dnsRRToString rrs)]"
    using primary_insert_trace [of env ip "flag_domain fl" dictionary rrs s] x(1) by simp
  have r: "\<exists>row. dns_queries s2 = dns_queries s @ [row]"
    using primary_insert_rows_ok [of env ip "flag_domain fl" dictionary rrs s] x(1) by simp
  have k: "task env fl dictionary ip s =
             additional_loop env ip dictionary (Split (flag_domains fl) CHR '','') s2"
    using x(2) assms(3) by (simp add: task_def)
  show ?thesis using t r k by blast
qed

section \<open>Properties of the loop of \<open>main\<close>\<close>

lemma run_tasks_Nil [simp]: "run_tasks env fl dictionary [] s = s"
  by (simp add: run_tasks_def)

lemma run_tasks_Cons [simp]:
  "run_tasks env fl dictionary (ip # ips) s = run_tasks env fl dictionary ips (dispatch env fl dictionary ip s)"
  by (simp add: run_tasks_def)

lemma scan_loop_Suc:
  "flag_goroutines fl \<noteq> 0 \<Longrightarrow>
   scan_loop (Suc fuel) env fl dictionary ipnet ip s =
     (if Contains ipnet ip then scan_loop fuel env fl dictionary ipnet (inc ip) (dispatch env fl dictionary ip s)
      else Returned s)"
  by (simp add: dispatch_def)

lemma ip_val_inc_4: "length ip = 4 \<Longrightarrow> ip_val (inc ip) = (ip_val ip + 1) mod 2 ^ 32"
  by (simp add: ip_val_inc)

text \<open>
  The loop on an IPv4 block of prefix length \<open>p \<ge> 1\<close> whose network number is
  \<open>B * 2 ^ (32 - p)\<close>: from the \<open>i\<close>-th address of the block on, it visits the rest of
  the block in ascending order and stops.
\<close>

lemma scan_loop_block:
  fixes B p :: nat
  defines "H \<equiv> 2 ^ (32 - p)"
  assumes N: "flag_goroutines fl \<noteq> 0"
      and nn: "length nn = 4" "ip_val nn = B * H"
      and p: "1 \<le> p" "p \<le> 32"
  shows "length ip = 4 \<Longrightarrow> ip_val ip = (B * H + i) mod 2 ^ 32 \<Longrightarrow> i \<le> H \<Longrightarrow> k = H - i \<Longrightarrow> k < fuel \<Longrightarrow>
         \<exists>ips. scan_loop fuel env fl dictionary \<lparr>IP = nn, Mask = CIDRMask_loop 4 p\<rparr> ip s =
                  Returned (run_tasks env fl dictionary ips s) \<and>
               map ip_val ips = [B * H + i ..< B * H + H] \<and>
               (\<forall>x \<in> set ips. length x = 4)"
proof (induction k arbitrary: ip i s fuel)
  case 0
  have Hpos: "0 < H" by (simp add: H_def)
  have split32: "(2 :: nat) ^ 32 = 2 ^ p * H"
    using p by (simp add: H_def power_add [symmetric])
  have Bbound: "B < 2 ^ p"
  proof -
    have "B * H < 2 ^ p * H"
      using ip_val_bound [of nn] nn split32 by simp
    then show ?thesis using Hpos by simp
  qed
  from 0 have i: "i = H" by simp
  obtain f where fuel: "fuel = Suc f" using 0 by (cases fuel) auto
  have "ip_val ip = ((B + 1) * H) mod (2 ^ p * H)"
    using 0 i split32 by (simp add: algebra_simps)
  also have "\<dots> = ((B + 1) mod 2 ^ p) * H"
    by (simp add: mult_mod_left)
  finally have "ip_val ip div H = (B + 1) mod 2 ^ p"
    using Hpos by simp
  moreover have "(B + 1) mod 2 ^ p \<noteq> B"
  proof (cases "B + 1 < 2 ^ p")
    case True
    then show ?thesis by simp
  next
    case False
    then have "B + 1 = 2 ^ p" using Bbound by simp
    moreover have "(2 :: nat) ^ 1 \<le> 2 ^ p" using p(1) by (intro power_increasing) simp_all
    ultimately show ?thesis by simp
  qed
  moreover have "ip_val nn div H = B" using nn Hpos by simp
  ultimately have "\<not> Contains \<lparr>IP = nn, Mask = CIDRMask_loop 4 p\<rparr> ip"
    using Contains_ipv4 [OF nn(1) 0(1) p(2)] by (simp add: H_def)
  then show ?case
    using i fuel N by (intro exI [of _ "[]"]) (simp add: scan_loop_Suc del: scan_loop.simps)
next
  case (Suc k)
  have Hpos: "0 < H" by (simp add: H_def)
  have split32: "(2 :: nat) ^ 32 = 2 ^ p * H"
    using p by (simp add: H_def power_add [symmetric])
  have Bbound: "B < 2 ^ p"
  proof -
    have "B * H < 2 ^ p * H"
      using ip_val_bound [of nn] nn split32 by simp
    then show ?thesis using Hpos by simp
  qed
  from Suc.prems have i: "i < H" by simp
  have "B * H + i < (B + 1) * H" using i by simp
  also have "\<dots> \<le> 2 ^ p * H" using Bbound by (intro mult_le_mono1) simp
  finally have lt: "B * H + i < 2 ^ 32" using split32 by simp
  then have v: "ip_val ip = B * H + i" using Suc.prems by simp
  then have "ip_val ip div H = B" using i by simp
  moreover have "ip_val nn div H = B" using nn Hpos by simp
  ultimately have c: "Contains \<lparr>IP = nn, Mask = CIDRMask_loop 4 p\<rparr> ip"
    using Contains_ipv4 [OF nn(1) Suc.prems(1) p(2)] by (simp add: H_def)
  obtain f where fuel: "fuel = Suc f" and f: "k < f" using Suc.prems by (cases fuel) auto
  have "ip_val (inc ip) = (B * H + Suc i) mod 2 ^ 32"
    using ip_val_inc_4 [OF Suc.prems(1)] v by simp
  moreover have "length (inc ip) = 4" using Suc.prems(1) by simp
  moreover have "Suc i \<le> H" using i by simp
  moreover have "k = H - Suc i" using Suc.prems(4) by linarith
  ultimately have "\<exists>ips. scan_loop f env fl dictionary \<lparr>IP = nn, Mask = CIDRMask_loop 4 p\<rparr> (inc ip) (dispatch env fl dictionary ip s) =
                  Returned (run_tasks env fl dictionary ips (dispatch env fl dictionary ip s)) \<and>
               map ip_val ips = [B * H + Suc i ..< B * H + H] \<and>
               (\<forall>x \<in> set ips. length x = 4)"
    using f by (intro Suc.IH)
  then obtain ips where ips:
    "scan_loop f env fl dictionary \<lparr>IP = nn, Mask = CIDRMask_loop 4 p\<rparr> (inc ip) (dispatch env fl dictionary ip s) =
       Returned (run_tasks env fl dictionary ips (dispatch env fl dictionary ip s))"
    "map ip_val ips = [B * H + Suc i ..< B * H + H]"
    "\<forall>x \<in> set ips. length x = 4"
    by blast
  have "[B * H + i ..< B * H + H] = (B * H + i) # [B * H + Suc i ..< B * H + H]"
    using i by (simp add: upt_conv_Cons)
  then show ?case
    using ips c v fuel N Suc.prems(1)
    by (intro exI [of _ "ip # ips"]) (simp add: scan_loop_Suc del: scan_loop.simps)
qed

lemma scan_loop_mono:
  "scan_loop f env fl dictionary ipnet ip s = Returned s' \<Longrightarrow> f \<le> f' \<Longrightarrow>
     scan_loop f' env fl dictionary ipnet ip s = Returned s'"
proof (induction f arbitrary: f' ip s)
  case 0
  then show ?case by simp
next
  case (Suc f)
  then obtain g where g: "f' = Suc g" "f \<le> g" by (cases f') auto
  show ?case
    using Suc.prems(1) Suc.IH [of _ _ g] g
    by (auto split: if_splits)
qed

text \<open>On an IPv4 block of prefix length 0 the condition of the loop always holds.\<close>

lemma scan_loop_slash0:
  assumes "flag_goroutines fl \<noteq> 0" "length nn = 4"
  shows "length ip = 4 \<Longrightarrow>
     scan_loop fuel env fl dictionary \<lparr>IP = nn, Mask = CIDRMask_loop 4 0\<rparr> ip s =
       Running (run_tasks env fl dictionary (map (\<lambda>j. (inc ^^ j) ip) [0..<fuel]) s)"
proof (induction fuel arbitrary: ip s)
  case 0
  show ?case by simp
next
  case (Suc fuel)
  have "ip_val nn < 2 ^ 32" "ip_val ip < 2 ^ 32"
    using ip_val_bound [of nn] ip_val_bound [of ip] assms(2) Suc.prems by simp_all
  then have c: "Contains \<lparr>IP = nn, Mask = CIDRMask_loop 4 0\<rparr> ip"
    using Contains_ipv4 [OF assms(2) Suc.prems, of 0] by simp
  have "map (\<lambda>j. (inc ^^ j) ip) [0..<Suc fuel] = ip # map (\<lambda>j. (inc ^^ j) (inc ip)) [0..<fuel]"
    by (simp add: upt_conv_Cons map_Suc_upt [symmetric] funpow_swap1 del: upt_Suc)
  then show ?case
    using c assms(1) Suc.IH [of "inc ip" "dispatch env fl dictionary ip s"] Suc.prems
    by (simp add: scan_loop_Suc del: scan_loop.simps upt_Suc)
qed

lemma ip_val_funpow_inc:
  "length ip = 4 \<Longrightarrow> length ((inc ^^ j) ip) = 4 \<and> ip_val ((inc ^^ j) ip) = (ip_val ip + j) mod 2 ^ 32"
proof (induction j)
  case 0
  then show ?case using ip_val_bound [of ip] by simp
next
  case (Suc j)
  then show ?case by (simp add: ip_val_inc_4 mod_Suc_eq)
qed

text \<open>What the tasks of a list of addresses leave behind.\<close>

lemma dispatch_dispatched:
  "dispatched (trace (dispatch env fl dictionary ip s)) = dispatched (trace s) @ [ip]"
  by (simp add: dispatch_def task_dispatched)

lemma run_tasks_dispatched:
  "dispatched (trace (run_tasks env fl dictionary ips s)) = dispatched (trace s) @ ips"
  by (induction ips arbitrary: s) (simp_all add: dispatch_dispatched)

lemma dispatch_sent:
  "\<exists>more. sent (trace (dispatch env fl dictionary ip s)) =
      sent (trace s) @ (primary_name env ip (flag_domain fl) dictionary, server_of env ip) # more"
  by (simp add: dispatch_def task_sent queryDNS_sent)

lemma run_tasks_sent_mono:
  "set (sent (trace s)) \<subseteq> set (sent (trace (run_tasks env fl dictionary ips s)))"
proof (induction ips arbitrary: s)
  case Nil
  show ?case by simp
next
  case (Cons ip ips)
  obtain more where "sent (trace (dispatch env fl dictionary ip s)) =
      sent (trace s) @ (primary_name env ip (flag_domain fl) dictionary, server_of env ip) # more"
    using dispatch_sent by blast
  then have "set (sent (trace s)) \<subseteq> set (sent (trace (dispatch env fl dictionary ip s)))" by auto
  then show ?case
    using Cons.IH [of "dispatch env fl dictionary ip s"] by auto
qed

lemma run_tasks_sent_primary:
  "ip \<in> set ips \<Longrightarrow>
     (primary_name env ip (flag_domain fl) dictionary, server_of env ip)
       \<in> set (sent (trace (run_tasks env fl dictionary ips s)))"
proof (induction ips arbitrary: s)
  case Nil
  then show ?case by simp
next
  case (Cons x ips)
  show ?case
  proof (cases "ip = x")
    case True
    obtain more where "sent (trace (dispatch env fl dictionary ip s)) =
        sent (trace s) @ (primary_name env ip (flag_domain fl) dictionary, server_of env ip) # more"
      using dispatch_sent by blast
    then have "(primary_name env ip (flag_domain fl) dictionary, server_of env ip)
        \<in> set (sent (trace (dispatch env fl dictionary ip s)))" by simp
    then show ?thesis
      using run_tasks_sent_mono [of "dispatch env fl dictionary ip s" env fl dictionary ips] True
      by auto
  next
    case False
    then show ?thesis using Cons by simp
  qed
qed

lemma dispatch_count:
  assumes "db_ok env" "net_ok env"
  shows "length (dns_queries (dispatch env fl dictionary ip s)) =
           length (dns_queries s) + (1 + additional_count (flag_domains fl))"
  using queryDNS_count [OF assms, of ip "flag_domain fl" "flag_domains fl" dictionary "emit (Dispatched ip) s"]
  by (simp add: dispatch_def task_rows additional_count_def)

lemma run_tasks_count:
  assumes "db_ok env" "net_ok env"
  shows "length (dns_queries (run_tasks env fl dictionary ips s)) =
           length (dns_queries s) + length ips * (1 + additional_count (flag_domains fl))"
  by (induction ips arbitrary: s) (simp_all add: dispatch_count [OF assms])

text \<open>\<open>main\<close> on an IPv4 block.\<close>

lemma network_address_eq:
  "p \<le> 32 \<Longrightarrow> network_address a b c d p = band [a, b, c, d] (CIDRMask_loop 4 p)"
  by (simp add: network_address_def CIDRMask_32 IP_Mask_IPv4)

lemma network_address_val:
  assumes "p \<le> 32"
  shows "length (network_address a b c d p) = 4"
    and "ip_val (network_address a b c d p) = ip_val [a, b, c, d] div 2 ^ (32 - p) * 2 ^ (32 - p)"
  using assms ip_val_band_mask [of "[a, b, c, d]" 4 p]
  by (simp_all add: network_address_eq)

lemma main_scan:
  assumes "BuildDictionary env ''dictionary.txt'' = Inr dictionary"
      and "initializeDB env (flag_db fl) = None"
      and "ParseCIDR env (flag_network fl) = Inr (ipv4_cidr a b c d p)"
      and "p \<le> 32" "0 < flag_goroutines fl"
  shows "main fuel env fl s =
           scan_loop fuel env fl dictionary
             \<lparr>IP = network_address a b c d p, Mask = CIDRMask_loop 4 p\<rparr> (network_address a b c d p) s"
  using assms
  by (simp add: main_def ipv4_cidr_eq network_address_eq IP_Mask_IPv4)

lemma main_block:
  assumes "BuildDictionary env ''dictionary.txt'' = Inr dictionary"
      and "initializeDB env (flag_db fl) = None"
      and "ParseCIDR env (flag_network fl) = Inr (ipv4_cidr a b c d p)"
      and "1 \<le> p" "p \<le> 32" "0 < flag_goroutines fl"
      and "2 ^ (32 - p) < fuel"
  shows "\<exists>ips. main fuel env fl s = Returned (run_tasks env fl dictionary ips s) \<and>
               map ip_val ips = [ip_val (network_address a b c d p) ..<
                                 ip_val (network_address a b c d p) + 2 ^ (32 - p)] \<and>
               (\<forall>x \<in> set ips. length x = 4)"
proof -
  let ?n = "network_address a b c d p"
  let ?B = "ip_val [a, b, c, d] div 2 ^ (32 - p)"
  have n: "length ?n = 4" "ip_val ?n = ?B * 2 ^ (32 - p)"
    using network_address_val [OF assms(5)] by simp_all
  have "ip_val ?n < 2 ^ 32" using ip_val_bound [of ?n] n(1) by simp
  then have v: "ip_val ?n = (?B * 2 ^ (32 - p) + 0) mod 2 ^ 32" using n(2) by simp
  have N: "flag_goroutines fl \<noteq> 0" using assms(6) by simp
  have "\<exists>ips. scan_loop fuel env fl dictionary \<lparr>IP = ?n, Mask = CIDRMask_loop 4 p\<rparr> ?n s =
                  Returned (run_tasks env fl dictionary ips s) \<and>
               map ip_val ips = [?B * 2 ^ (32 - p) + 0 ..< ?B * 2 ^ (32 - p) + 2 ^ (32 - p)] \<and>
               (\<forall>x \<in> set ips. length x = 4)"
    by (rule scan_loop_block [OF N n assms(4,5) n(1) v _ refl]) (use assms(7) in simp_all)
  then show ?thesis
    using main_scan [OF assms(1,2,3,5,6)] n(2) by simp
qed

text \<open>
  The same in terms of what is observed: on an IPv4 block of prefix length \<open>p \<ge> 1\<close>
  \<open>main\<close> returns, and the addresses it has dispatched are those of the block, each
  once, ascending from the masked network address to the last address of the block.
\<close>

lemma main_enumerates_block:
  assumes "BuildDictionary env ''dictionary.txt'' = Inr dictionary"
      and "initializeDB env (flag_db fl) = None"
      and "ParseCIDR env (flag_network fl) = Inr (ipv4_cidr a b c d p)"
      and "1 \<le> p" "p \<le> 32" "0 < flag_goroutines fl"
      and "2 ^ (32 - p) < fuel"
  shows "\<exists>s'. main fuel env fl s = Returned s' \<and>
              map ip_val (dispatched (trace s')) =
                map ip_val (dispatched (trace s)) @
                  [ip_val (network_address a b c d p) ..<
                   ip_val (network_address a b c d p) + 2 ^ (32 - p)] \<and>
              ip_val (network_address a b c d p) + 2 ^ (32 - p) \<le> 2 ^ 32"
proof -
  obtain ips where ips:
    "main fuel env fl s = Returned (run_tasks env fl dictionary ips s)"
    "map ip_val ips = [ip_val (network_address a b c d p) ..<
                       ip_val (network_address a b c d p) + 2 ^ (32 - p)]"
    using main_block [OF assms, of s] by blast
  let ?H = "(2 :: nat) ^ (32 - p)"
  let ?B = "ip_val [a, b, c, d] div ?H"
  have split32: "(2 :: nat) ^ 32 = 2 ^ p * ?H"
    using assms(5) by (simp add: power_add [symmetric])
  have "ip_val [a, b, c, d] < 2 ^ p * ?H"
    using ip_val_bound [of "[a, b, c, d]"] split32 by simp
  then have "?B < 2 ^ p"
    by (simp add: less_mult_imp_div_less)
  then have "(?B + 1) * ?H \<le> 2 ^ p * ?H"
    by (intro mult_le_mono1) simp
  then have "ip_val (network_address a b c d p) + ?H \<le> 2 ^ 32"
    using network_address_val(2) [OF assms(5), of a b c d] split32 by simp
  then show ?thesis
    using ips by (simp add: run_tasks_dispatched)
qed

lemma main_slash0:
  assumes "BuildDictionary env ''dictionary.txt'' = Inr dictionary"
      and "initializeDB env (flag_db fl) = None"
      and "ParseCIDR env (flag_network fl) = Inr (ipv4_cidr a b c d 0)"
      and "0 < flag_goroutines fl"
  shows "main fuel env fl s =
           Running (run_tasks env fl dictionary (map (\<lambda>j. (inc ^^ j) (network_address a b c d 0)) [0..<fuel]) s)"
proof -
  have n: "length (network_address a b c d 0) = 4"
    using network_address_val(1) [of 0] by simp
  have N: "flag_goroutines fl \<noteq> 0" using assms(4) by simp
  show ?thesis
    using main_scan [OF assms(1,2,3) _ assms(4), of fuel s] scan_loop_slash0 [OF N n n]
    by simp
qed

subsection \<open>The events of a scan\<close>

lemma task_events:
  "\<exists>evs. trace (task env fl dictionary ip s) = trace s @ evs \<and>
         (primary_name env ip (flag_domain fl) dictionary, server_of env ip) \<in> set (sent evs) \<and>
         dispatched evs = [] \<and>
         (answers env (primary_name env ip (flag_domain fl) dictionary) (server_of env ip) \<longrightarrow>
            (\<exists>a. (IP_String env ip, flag_domain fl,
                   dnsQuestionToString (primary_name env ip (flag_domain fl) dictionary) TypeA, a)
                    \<in> set (inserted evs)))"
proof -
  obtain evs where e:
    "trace (snd (queryDNS env ip (flag_domain fl) (flag_domains fl) dictionary s)) = trace s @ evs"
    "(primary_name env ip (flag_domain fl) dictionary, server_of env ip) \<in> set (sent evs)"
    "dispatched evs = []"
    "answers env (primary_name env ip (flag_domain fl) dictionary) (server_of env ip) \<longrightarrow>
            (\<exists>a. (IP_String env ip, flag_domain fl,
                   dnsQuestionToString (primary_name env ip (flag_domain fl) dictionary) TypeA, a)
                    \<in> set (inserted evs))"
    using queryDNS_events [of env ip "flag_domain fl" "flag_domains fl" dictionary s] by blast
  obtain r s1 where q: "queryDNS env ip (flag_domain fl) (flag_domains fl) dictionary s = (r, s1)"
    by (cases "queryDNS env ip (flag_domain fl) (flag_domains fl) dictionary s")
  have t1: "trace s1 = trace s @ evs" using e(1) q by simp
  show ?thesis
  proof (cases r)
    case None
    then have "task env fl dictionary ip s = s1" by (simp add: task_def q)
    then show ?thesis using t1 e(2,3,4) by (intro exI [of _ evs]) simp
  next
    case (Some err)
    then have "task env fl dictionary ip s = emit (Logged (''Error querying DNS: '' @ err @ [CHR 0x0A])) s1"
      by (simp add: task_def q)
    then show ?thesis
      using t1 e(2,3,4)
      by (intro exI [of _ "evs @ [Logged (''Error querying DNS: '' @ err @ [CHR 0x0A])]"]) simp
  qed
qed

lemma dispatch_events:
  "\<exists>evs. trace (dispatch env fl dictionary ip s) = trace s @ evs \<and>
         dispatched evs = [ip] \<and>
         (primary_name env ip (flag_domain fl) dictionary, server_of env ip) \<in> set (sent evs) \<and>
         (answers env (primary_name env ip (flag_domain fl) dictionary) (server_of env ip) \<longrightarrow>
            (\<exists>a. (IP_String env ip, flag_domain fl,
                   dnsQuestionToString (primary_name env ip (flag_domain fl) dictionary) TypeA, a)
                    \<in> set (inserted evs)))"
proof -
  obtain evs where e:
    "trace (task env fl dictionary ip (emit (Dispatched ip) s)) = trace (emit (Dispatched ip) s) @ evs"
    "(primary_name env ip (flag_domain fl) dictionary, server_of env ip) \<in> set (sent evs)"
    "dispatched evs = []"
    "answers env (primary_name env ip (flag_domain fl) dictionary) (server_of env ip) \<longrightarrow>
            (\<exists>a. (IP_String env ip, flag_domain fl,
                   dnsQuestionToString (primary_name env ip (flag_domain fl) dictionary) TypeA, a)
                    \<in> set (inserted evs))"
    using task_events [of env fl dictionary ip "emit (Dispatched ip) s"] by blast
  show ?thesis
    using e by (intro exI [of _ "Dispatched ip # evs"]) (simp add: dispatch_def)
qed

lemma run_tasks_events:
  "\<exists>evs. trace (run_tasks env fl dictionary ips s) = trace s @ evs \<and>
         dispatched evs = ips \<and>
         (\<forall>ip \<in> set ips.
            (primary_name env ip (flag_domain fl) dictionary, server_of env ip) \<in> set (sent evs) \<and>
            (answers env (primary_name env ip (flag_domain fl) dictionary) (server_of env ip) \<longrightarrow>
               (\<exists>a. (IP_String env ip, flag_domain fl,
                      dnsQuestionToString (primary_name env ip (flag_domain fl) dictionary) TypeA, a)
                       \<in> set (inserted evs))))"
proof (induction ips arbitrary: s)
  case Nil
  show ?case by simp
next
  case (Cons x ips)
  let ?s1 = "dispatch env fl dictionary x s"
  obtain e1 where a:
    "trace ?s1 = trace s @ e1" "dispatched e1 = [x]"
    "(primary_name env x (flag_domain fl) dictionary, server_of env x) \<in> set (sent e1)"
    "answers env (primary_name env x (flag_domain fl) dictionary) (server_of env x) \<longrightarrow>
            (\<exists>a. (IP_String env x, flag_domain fl,
                   dnsQuestionToString (primary_name env x (flag_domain fl) dictionary) TypeA, a)
                    \<in> set (inserted e1))"
    using dispatch_events [of env fl dictionary x s] by blast
  obtain e2 where b:
    "trace (run_tasks env fl dictionary ips ?s1) = trace ?s1 @ e2" "dispatched e2 = ips"
    "\<forall>ip \<in> set ips.
            (primary_name env ip (flag_domain fl) dictionary, server_of env ip) \<in> set (sent e2) \<and>
            (answers env (primary_name env ip (flag_domain fl) dictionary) (server_of env ip) \<longrightarrow>
               (\<exists>a. (IP_String env ip, flag_domain fl,
                      dnsQuestionToString (primary_name env ip (flag_domain fl) dictionary) TypeA, a)
                       \<in> set (inserted e2)))"
    using Cons.IH [of ?s1] by blast
  have 1: "trace (run_tasks env fl dictionary (x # ips) s) = trace s @ (e1 @ e2)"
    using a(1) b(1) by simp
  have 2: "dispatched (e1 @ e2) = x # ips" using a(2) b(2) by simp
  have 3: "\<forall>ip \<in> set (x # ips).
            (primary_name env ip (flag_domain fl) dictionary, server_of env ip) \<in> set (sent (e1 @ e2)) \<and>
            (answers env (primary_name env ip (flag_domain fl) dictionary) (server_of env ip) \<longrightarrow>
               (\<exists>a. (IP_String env ip, flag_domain fl,
                      dnsQuestionToString (primary_name env ip (flag_domain fl) dictionary) TypeA, a)
                       \<in> set (inserted (e1 @ e2))))"
    using a(3,4) b(3) by auto
  show ?case using 1 2 3 by blast
qed

text \<open>A block that is returned from was not a /0, and was scanned in full.\<close>

lemma main_returned_count:
  assumes "BuildDictionary env ''dictionary.txt'' = Inr dictionary"
      and "initializeDB env (flag_db fl) = None"
      and "ParseCIDR env (flag_network fl) = Inr (ipv4_cidr a b c d p)"
      and "p \<le> 32" and "0 < flag_goroutines fl"
      and "db_ok env" and "net_ok env"
      and "main fuel env fl s = Returned s'"
  shows "1 \<le> p \<and> length (dns_queries s') =
           length (dns_queries s) + 2 ^ (32 - p) * (1 + additional_count (flag_domains fl))"
proof -
  have p1: "1 \<le> p"
  proof (rule ccontr)
    assume "\<not> 1 \<le> p"
    then have "p = 0" by simp
    then show False
      using main_slash0 [OF assms(1,2) _ assms(5), of a b c d fuel s] assms(3,8) by simp
  qed
  let ?f = "max fuel (Suc (2 ^ (32 - p)))"
  have "main ?f env fl s = Returned s'"
    using assms(8) main_scan [OF assms(1,2,3,4,5)] scan_loop_mono [of fuel _ _ _ _ _ s s' ?f]
    by simp
  moreover have "2 ^ (32 - p) < ?f" by simp
  then obtain ips where ips:
    "main ?f env fl s = Returned (run_tasks env fl dictionary ips s)"
    "map ip_val ips = [ip_val (network_address a b c d p) ..<
                       ip_val (network_address a b c d p) + 2 ^ (32 - p)]"
    using main_block [OF assms(1,2,3) p1 assms(4,5), of ?f s] by blast
  ultimately have s': "s' = run_tasks env fl dictionary ips s" by simp
  have "length (map ip_val ips) = 2 ^ (32 - p)"
    unfolding ips(2) by simp
  then have "length ips = 2 ^ (32 - p)" by simp
  then show ?thesis
    unfolding s' using p1 by (simp add: run_tasks_count [OF assms(6,7)])
qed

section \<open>Properties of the scheduler\<close>

lemma filter_update_leave:
  assumes "i < length xs" "P (xs ! i)" "\<not> P y"
  shows "Suc (length (filter P (xs[i := y]))) = length (filter P xs)"
  using assms
proof (induction xs arbitrary: i)
  case Nil
  then show ?case by simp
next
  case (Cons x xs)
  then show ?case by (cases i) auto
qed

lemma filter_update_keep:
  assumes "i < length xs" "P (xs ! i) = P y"
  shows "length (filter P (xs[i := y])) = length (filter P xs)"
  using assms
proof (induction xs arbitrary: i)
  case Nil
  then show ?case by simp
next
  case (Cons x xs)
  then show ?case by (cases i) auto
qed

lemma filter_pos:
  "0 < length (filter P xs) \<Longrightarrow> \<exists>i < length xs. P (xs ! i)"
  by (metis filter_False in_set_conv_nth length_greater_0_conv)

lemma step_inv:
  assumes "sched_inv N ipnet start s" "step N ipnet s s'"
  shows "sched_inv N ipnet start s'"
  using assms(2) assms(1)
proof cases
  case cond_in
  then show ?thesis using assms(1) by (auto simp add: sched_inv_def querying_def unfinished_def)
next
  case cond_out
  then show ?thesis using assms(1) by (auto simp add: sched_inv_def querying_def unfinished_def)
next
  case send
  then show ?thesis using assms(1) by (auto simp add: sched_inv_def querying_def unfinished_def)
next
  case add
  then show ?thesis using assms(1) by (auto simp add: sched_inv_def querying_def unfinished_def)
next
  case go
  then show ?thesis using assms(1) by (auto simp add: sched_inv_def querying_def unfinished_def)
next
  case (recv i ip)
  have q: "Suc (length (filter (\<lambda>g. snd g = Querying) ((goroutines s)[i := (ip, Released)]))) =
           length (filter (\<lambda>g. snd g = Querying) (goroutines s))"
    using recv by (intro filter_update_leave) simp_all
  have u: "length (filter (\<lambda>g. snd g \<noteq> Finished) ((goroutines s)[i := (ip, Released)])) =
           length (filter (\<lambda>g. snd g \<noteq> Finished) (goroutines s))"
    using recv by (intro filter_update_keep) simp_all
  have f: "map fst ((goroutines s)[i := (ip, Released)]) = map fst (goroutines s)"
    using recv by (simp add: map_update list_update_same_conv)
  have c: "\<forall>g \<in> set ((goroutines s)[i := (ip, Released)]). Contains ipnet (fst g)"
  proof
    fix g assume "g \<in> set ((goroutines s)[i := (ip, Released)])"
    then have "g = (ip, Released) \<or> g \<in> set (goroutines s)"
      using set_update_subset_insert by fastforce
    moreover have "(ip, Querying) \<in> set (goroutines s)" using recv nth_mem by fastforce
    ultimately show "Contains ipnet (fst g)" using assms(1) by (auto simp: sched_inv_def)
  qed
  show ?thesis
    using assms(1) recv q u f c
    unfolding sched_inv_def querying_def unfinished_def
    by (cases "m_pc s") (auto simp del: map_update)
next
  case (finish i ip)
  have q: "length (filter (\<lambda>g. snd g = Querying) ((goroutines s)[i := (ip, Finished)])) =
           length (filter (\<lambda>g. snd g = Querying) (goroutines s))"
    using finish by (intro filter_update_keep) simp_all
  have u: "Suc (length (filter (\<lambda>g. snd g \<noteq> Finished) ((goroutines s)[i := (ip, Finished)]))) =
           length (filter (\<lambda>g. snd g \<noteq> Finished) (goroutines s))"
    using finish by (intro filter_update_leave) simp_all
  have f: "map fst ((goroutines s)[i := (ip, Finished)]) = map fst (goroutines s)"
    using finish by (simp add: map_update list_update_same_conv)
  have c: "\<forall>g \<in> set ((goroutines s)[i := (ip, Finished)]). Contains ipnet (fst g)"
  proof
    fix g assume "g \<in> set ((goroutines s)[i := (ip, Finished)])"
    then have "g = (ip, Finished) \<or> g \<in> set (goroutines s)"
      using set_update_subset_insert by fastforce
    moreover have "(ip, Released) \<in> set (goroutines s)" using finish nth_mem by fastforce
    ultimately show "Contains ipnet (fst g)" using assms(1) by (auto simp: sched_inv_def)
  qed
  show ?thesis
    using assms(1) finish q u f c
    unfolding sched_inv_def querying_def unfinished_def
    by (cases "m_pc s") (auto simp del: map_update)
next
  case wait
  then show ?thesis using assms(1) by (auto simp add: sched_inv_def querying_def unfinished_def)
qed

lemma reachable_inv: "reachable N ipnet start s \<Longrightarrow> sched_inv N ipnet start s"
proof (induction rule: reachable.induct)
  case reach_init
  show ?case by (simp add: sched_inv_def init_sched_def querying_def unfinished_def)
next
  case (reach_step s s')
  then show ?case using step_inv by blast
qed

lemma sched_progress:
  assumes "1 \<le> N" "sched_inv N ipnet start s" "m_pc s \<noteq> AtEnd"
  shows "\<exists>s'. step N ipnet s s'"
proof (cases "m_pc s")
  case AtCond
  then show ?thesis using cond_in [of s ipnet N] cond_out [of s ipnet N] by blast
next
  case AtSend
  show ?thesis
  proof (cases "tokens s < N")
    case True
    then show ?thesis using send [OF AtSend] by blast
  next
    case False
    then have "0 < querying s" using assms(1,2) AtSend by (simp add: sched_inv_def)
    then obtain i where i: "i < length (goroutines s)" "snd (goroutines s ! i) = Querying"
      unfolding querying_def using filter_pos [of "\<lambda>g. snd g = Querying" "goroutines s"] by blast
    then have "goroutines s ! i = (fst (goroutines s ! i), Querying)"
      by (metis prod.collapse)
    moreover have "0 < tokens s" using False assms(1) by simp
    ultimately show ?thesis using recv [OF i(1)] by blast
  qed
next
  case AtAdd
  then show ?thesis using add by blast
next
  case AtGo
  then show ?thesis using go by blast
next
  case AtWait
  show ?thesis
  proof (cases "wg_count s = 0")
    case True
    then show ?thesis using wait [OF AtWait] by blast
  next
    case False
    then have "0 < unfinished s" using assms(2) AtWait by (simp add: sched_inv_def)
    then obtain i where i: "i < length (goroutines s)" "snd (goroutines s ! i) \<noteq> Finished"
      unfolding unfinished_def using filter_pos [of "\<lambda>g. snd g \<noteq> Finished" "goroutines s"] by blast
    show ?thesis
    proof (cases "snd (goroutines s ! i)")
      case Querying
      then have g: "goroutines s ! i = (fst (goroutines s ! i), Querying)"
        by (metis prod.collapse)
      have "(goroutines s ! i) \<in> set (filter (\<lambda>g. snd g = Querying) (goroutines s))"
        using i(1) Querying by simp
      then have "0 < querying s"
        unfolding querying_def by (metis length_pos_if_in_set)
      then have "0 < tokens s" using assms(2) by (simp add: sched_inv_def)
      then show ?thesis using recv [OF i(1) g] by blast
    next
      case Released
      then have g: "goroutines s ! i = (fst (goroutines s ! i), Released)"
        by (metis prod.collapse)
      have "0 < wg_count s" using False by simp
      then show ?thesis using finish [OF i(1) g] by blast
    next
      case Finished
      then show ?thesis using i(2) by simp
    qed
  qed
next
  case AtEnd
  then show ?thesis using assms(3) by simp
qed

section \<open>The claims\<close>

text \<open>Facts for running the model on the example inputs.\<close>

lemmas eval_defs = queryDNS_def performDNSQuery_def insertIntoDB_def emit_def Fqdn_def IsFqdn_def
  JoinHostPort_def IP_String_def To4_def IPv4len_def IPv6len_def ubtoa_def digit_def queryAdditionalDNS_def
  dnsQuestionToString_def dnsRRToString_def TypeToString_def TypeA_def primary_name_def server_of_def
  primary_query_fails_def primary_insert_fails_def primary_insert_def s_init_def example_env_def

lemmas env_defs = env_up_def env_down_def env_db_fails_def env_one_down_def

lemmas contains_eval = Contains_def networkNumberAndMask_def To4_def IPv4len_def IPv6len_def
  Let_def net_32_def inc_def

lemma example_init:
  "BuildDictionary (example_env x e) ''dictionary.txt'' = Inr []"
  "initializeDB (example_env x e) f = None"
  "ParseCIDR (example_env x e) = example_parse"
  by (simp_all add: example_env_def initializeDB_def)

lemma map_upt_nth:
  assumes "map f xs = map g [0..<n]"
  shows "length xs = n" and "k < n \<Longrightarrow> f (xs ! k) = g k"
proof -
  show l: "length xs = n" using assms by (metis length_map length_upt minus_nat.diff_0)
  assume k: "k < n"
  have "map f xs ! k = map g [0..<n] ! k" using assms by simp
  then show "f (xs ! k) = g k" using k l by simp
qed

text \<open>A complete run of the scheduler on the block 10.0.0.8/32 with two tokens.\<close>

lemma sched_end_reachable: "reachable 2 net_32 [10, 0, 0, 8] sched_end"
proof -
  let ?R = "reachable 2 net_32 [10, 0, 0, 8]"
  let ?a = "[10, 0, 0, 8] :: IP"
  let ?b = "[10, 0, 0, 9] :: IP"
  have "?R \<lparr>m_pc = AtCond, loop_ip = ?a, tokens = 0, wg_count = 0, goroutines = []\<rparr>"
    using reach_init [of 2 net_32 ?a] by (simp add: init_sched_def)
  from reach_step [OF this cond_in]
  have "?R \<lparr>m_pc = AtSend, loop_ip = ?a, tokens = 0, wg_count = 0, goroutines = []\<rparr>"
    by (simp add: contains_eval)
  from reach_step [OF this send]
  have "?R \<lparr>m_pc = AtAdd, loop_ip = ?a, tokens = 1, wg_count = 0, goroutines = []\<rparr>"
    by simp
  from reach_step [OF this add]
  have "?R \<lparr>m_pc = AtGo, loop_ip = ?a, tokens = 1, wg_count = 1, goroutines = []\<rparr>"
    by simp
  from reach_step [OF this go]
  have "?R \<lparr>m_pc = AtCond, loop_ip = ?b, tokens = 1, wg_count = 1, goroutines = [(?a, Querying)]\<rparr>"
    by (simp add: contains_eval)
  from reach_step [OF this cond_out]
  have "?R \<lparr>m_pc = AtWait, loop_ip = ?b, tokens = 1, wg_count = 1, goroutines = [(?a, Querying)]\<rparr>"
    by (simp add: contains_eval)
  from reach_step [OF this recv [of 0 _ ?a]]
  have "?R \<lparr>m_pc = AtWait, loop_ip = ?b, tokens = 0, wg_count = 1, goroutines = [(?a, Released)]\<rparr>"
    by simp
  from reach_step [OF this finish [of 0 _ ?a]]
  have "?R \<lparr>m_pc = AtWait, loop_ip = ?b, tokens = 0, wg_count = 0, goroutines = [(?a, Finished)]\<rparr>"
    by simp
  from reach_step [OF this wait]
  show ?thesis
    by (simp add: sched_end_def)
qed

subsection \<open>C1: a failed primary step\<close>

text \<open>
  Claim C1 says that when the primary-domain query of an address fails, or its record
  cannot be written, the additional domains are still queried for that address. The
  code returns from \<open>queryDNS\<close> at the first error of the primary step (lines 108
  to 114), so the claim is amended.

  C1 as amended: when the primary-domain query of an address fails, or the record of its
  answer cannot be written, \<open>queryDNS\<close> returns an error; the primary question is the
  only question sent for that address, none of the additional domains is queried, and no
  record is stored for the address.
\<close>

theorem queryDNS_primary_failure:
  assumes "primary_query_fails env ip domain dictionary s \<or> primary_insert_fails env ip domain dictionary s"
  shows "fst (queryDNS env ip domain domains dictionary s) \<noteq> None \<and>
         sent (trace (snd (queryDNS env ip domain domains dictionary s))) =
           sent (trace s) @ [(primary_name env ip domain dictionary, server_of env ip)] \<and>
         dns_queries (snd (queryDNS env ip domain domains dictionary s)) = dns_queries s"
  using queryDNS_fails [OF assms] by simp

text \<open>At 1.2.3.4, with a network where every exchange times out.\<close>

theorem queryDNS_primary_failure_witness:
  "primary_query_fails env_down [1, 2, 3, 4] ''example.com'' [] s_init \<and>
   sent (trace (snd (queryDNS env_down [1, 2, 3, 4] ''example.com'' ''a.example'' [] s_init))) =
     [(''tok.example.com.'', ''1.2.3.4:53'')] \<and>
   dns_queries (snd (queryDNS env_down [1, 2, 3, 4] ''example.com'' ''a.example'' [] s_init)) = []"
proof -
  have h: "primary_query_fails env_down [1, 2, 3, 4] ''example.com'' [] s_init"
    by (simp add: eval_defs env_defs)
  have "primary_name env_down [1, 2, 3, 4] ''example.com'' [] = ''tok.example.com.''"
    by (simp add: eval_defs env_defs)
  moreover have "server_of env_down [1, 2, 3, 4] = ''1.2.3.4:53''"
    by (simp add: eval_defs env_defs)
  ultimately show ?thesis
    using h queryDNS_primary_failure [of env_down "[1, 2, 3, 4]" "''example.com''" "[]" s_init "''a.example''"]
    by (simp add: s_init_def)
qed

text \<open>
  C1 as stated fails there: the primary query times out, \<open>a.example\<close> is a configured
  additional domain, and no question for it is sent to 1.2.3.4.
\<close>

theorem primary_failure_skips_additional:
  "primary_query_fails env_down [1, 2, 3, 4] ''example.com'' [] s_init \<and>
   ''a.example'' \<in> set (Split ''a.example'' CHR '','') \<and>
   (Fqdn ''a.example'', server_of env_down [1, 2, 3, 4])
      \<notin> set (sent (trace (snd (queryDNS env_down [1, 2, 3, 4] ''example.com'' ''a.example'' [] s_init))))"
  by (simp add: eval_defs env_defs)

subsection \<open>C2: the scheduler\<close>

text \<open>
  Claim C2: for every limit \<open>N \<ge> 1\<close> and every enumerated address sequence, each
  address is dispatched exactly once, at most \<open>N\<close> invocations of \<open>queryDNS\<close> run
  at any instant, and \<open>main\<close> returns only after every task has finished.

  In every state the scheduler can reach: at most \<open>N\<close> goroutines are inside
  \<open>queryDNS\<close>; the goroutines started so far were given, one each and in order, the
  addresses \<open>start\<close>, \<open>inc start\<close>, ... that the loop enumerates, all of them in
  the block; \<open>main\<close> is past \<open>wg.Wait()\<close> only when the next address is outside
  the block and every goroutine has finished; and until then some step is possible.
\<close>

theorem scheduler_bounded:
  assumes "1 \<le> N" "reachable N ipnet start s"
  shows "querying s \<le> N \<and>
         map fst (goroutines s) = map (\<lambda>j. (inc ^^ j) start) [0..<length (goroutines s)] \<and>
         (\<forall>g \<in> set (goroutines s). Contains ipnet (fst g)) \<and>
         (m_pc s = AtEnd \<longrightarrow>
            \<not> Contains ipnet ((inc ^^ length (goroutines s)) start) \<and>
            (\<forall>g \<in> set (goroutines s). snd g = Finished)) \<and>
         (m_pc s \<noteq> AtEnd \<longrightarrow> (\<exists>s'. step N ipnet s s'))"
proof -
  have inv: "sched_inv N ipnet start s" using assms(2) by (rule reachable_inv)
  have "querying s \<le> N" using inv by (simp add: sched_inv_def)
  moreover have "m_pc s = AtEnd \<Longrightarrow> \<forall>g \<in> set (goroutines s). snd g = Finished"
  proof -
    assume "m_pc s = AtEnd"
    then have "unfinished s = 0" using inv by (simp add: sched_inv_def)
    then show ?thesis by (simp add: unfinished_def filter_empty_conv)
  qed
  moreover have "m_pc s = AtEnd \<Longrightarrow> \<not> Contains ipnet ((inc ^^ length (goroutines s)) start)"
    using inv by (auto simp: sched_inv_def)
  moreover have "m_pc s \<noteq> AtEnd \<Longrightarrow> \<exists>s'. step N ipnet s s'"
    using sched_progress [OF assms(1) inv] .
  ultimately show ?thesis using inv by (auto simp: sched_inv_def)
qed

text \<open>At the end of the run on 10.0.0.8/32.\<close>

theorem scheduler_bounded_witness:
  "(1 :: nat) \<le> 2 \<and> reachable 2 net_32 [10, 0, 0, 8] sched_end \<and>
   querying sched_end \<le> 2 \<and> map fst (goroutines sched_end) = [[10, 0, 0, 8]] \<and>
   m_pc sched_end = AtEnd \<and> \<not> Contains net_32 (inc [10, 0, 0, 8]) \<and>
   list_all (\<lambda>g. snd g = Finished) (goroutines sched_end)"
proof -
  have h: "(1 :: nat) \<le> 2" by simp
  have e: "m_pc sched_end = AtEnd" by (simp add: sched_end_def)
  show ?thesis
    using scheduler_bounded [OF h sched_end_reachable] sched_end_reachable e
    by (simp add: sched_end_def list_all_iff)
qed

subsection \<open>C3 and C4: the enumeration of a block\<close>

text \<open>
  For a prefix length \<open>p \<ge> 1\<close>, lemma \<open>main_enumerates_block\<close> above is what
  claims C3 and C4 say: \<open>main\<close> returns, and the addresses it dispatched are the
  \<open>2 ^ (32 - p)\<close> addresses of the block, ascending from the masked network address
  without a gap. A block of prefix length 0 is different: \<open>inc\<close> turns
  255.255.255.255 into 0.0.0.0, which the block contains, so the loop starts over.

  Claim C3: for every valid IPv4 block of prefix length \<open>p\<close> the enumeration yields
  exactly \<open>2 ^ (32 - p)\<close> addresses, strictly ascending, without duplicates. On a
  block of prefix length 0 the code does otherwise: after any number of turns the loop
  is still running, and the address of turn \<open>j\<close> is number \<open>j mod 2 ^ 32\<close>.
\<close>

theorem slash0_enumeration_repeats:
  assumes "BuildDictionary env ''dictionary.txt'' = Inr dictionary"
      and "initializeDB env (flag_db fl) = None"
      and "ParseCIDR env (flag_network fl) = Inr (ipv4_cidr a b c d 0)"
      and "0 < flag_goroutines fl"
  shows "\<exists>s'. main fuel env fl s = Running s' \<and>
              map ip_val (dispatched (trace s')) =
                map ip_val (dispatched (trace s)) @ map (\<lambda>j. j mod 2 ^ 32) [0..<fuel]"
proof -
  let ?n = "network_address a b c d 0"
  have n: "length ?n = 4" "ip_val ?n = 0"
    using network_address_val [of 0 a b c d] ip_val_bound [of "[a, b, c, d]"] by simp_all
  have "\<And>j. ip_val ((inc ^^ j) ?n) = j mod 2 ^ 32"
    using ip_val_funpow_inc [OF n(1)] n(2) by simp
  then have "map ip_val (map (\<lambda>j. (inc ^^ j) ?n) [0..<fuel]) = map (\<lambda>j. j mod 2 ^ 32) [0..<fuel]"
    by simp
  then show ?thesis
    using main_slash0 [OF assms, of fuel s]
    by (simp add: run_tasks_dispatched del: map_map)
qed

text \<open>
  On 0.0.0.0/0, after \<open>2 ^ 32 + 1\<close> turns: that many addresses are dispatched, the
  first and the last of them 0.0.0.0.
\<close>

theorem slash0_enumeration_repeats_witness:
  "\<exists>s'. main 4294967297 env_up fl_0 s_init = Running s' \<and>
        length (dispatched (trace s')) = 4294967297 \<and>
        ip_val (dispatched (trace s') ! 0) = 0 \<and>
        ip_val (dispatched (trace s') ! 4294967296) = 0"
proof -
  have p: "ParseCIDR env_up (flag_network fl_0) = Inr (ipv4_cidr 0 0 0 0 0)"
    by (simp add: env_up_def example_init example_parse_def fl_0_def fl_30_def)
  have g: "0 < flag_goroutines fl_0" by (simp add: fl_0_def fl_30_def)
  obtain s' where s': "main 4294967297 env_up fl_0 s_init = Running s'"
    "map ip_val (dispatched (trace s')) =
       map ip_val (dispatched (trace s_init)) @ map (\<lambda>j. j mod 2 ^ 32) [0..<4294967297]"
    using slash0_enumeration_repeats [OF _ _ p g, of "[]" 4294967297 s_init]
    by (auto simp: env_up_def example_init)
  then have m: "map ip_val (dispatched (trace s')) = map (\<lambda>j. j mod 2 ^ 32) [0..<4294967297]"
    by (simp add: s_init_def)
  show ?thesis
    using s'(1) map_upt_nth [OF m] map_upt_nth(2) [OF m, of 0] map_upt_nth(2) [OF m, of 4294967296]
    by simp
qed

text \<open>
  Claim C4: the loop terminates for every valid IPv4 block, 0.0.0.0/0 included, and
  never wraps around into the block. On a block of prefix length 0 the code does
  otherwise: however many turns it is given, \<open>main\<close> is still in its loop.
\<close>

theorem slash0_never_returns:
  assumes "BuildDictionary env ''dictionary.txt'' = Inr dictionary"
      and "initializeDB env (flag_db fl) = None"
      and "ParseCIDR env (flag_network fl) = Inr (ipv4_cidr a b c d 0)"
      and "0 < flag_goroutines fl"
  shows "\<exists>s'. main fuel env fl s = Running s'"
  using main_slash0 [OF assms, of fuel s] by simp

text \<open>On 0.0.0.0/0, after a million turns.\<close>

theorem slash0_never_returns_witness:
  "\<exists>s'. main 1000000 env_up fl_0 s_init = Running s'"
proof -
  have p: "ParseCIDR env_up (flag_network fl_0) = Inr (ipv4_cidr 0 0 0 0 0)"
    by (simp add: env_up_def example_init example_parse_def fl_0_def fl_30_def)
  have g: "0 < flag_goroutines fl_0" by (simp add: fl_0_def fl_30_def)
  show ?thesis
    using slash0_never_returns [OF _ _ p g, of "[]" 1000000 s_init]
    by (simp add: env_up_def example_init)
qed

subsection \<open>C5: a failed write\<close>

text \<open>
  Claim C5 says that a failed write of one record is not fatal: it does not stop the
  scan, and the queries and writes that follow still take place, the remaining
  additional-domain queries of the same task included. That holds but for one case: a
  failed write of the primary record ends the task of that address (line 112), so the
  claim is amended there and nowhere else.

  C5 as amended, whatever the network and the database do:
  \<^item> the scan: \<open>main\<close> on an IPv4 block of prefix length \<open>p \<ge> 1\<close> returns after it
    has dispatched all \<open>2 ^ (32 - p)\<close> addresses; for each of them the primary
    question is sent and, when its server answers, the record is handed to
    \<open>insertIntoDB\<close>;
  \<^item> a task whose primary record is written: the question of every additional domain
    is sent, in order; every answer is handed to \<open>insertIntoDB\<close>; a domain whose
    writes fail gets a line in the log and no row; a domain whose writes succeed gets
    its row, whatever happened to the others;
  \<^item> a task whose primary record cannot be written: one question sent, one record
    handed to \<open>insertIntoDB\<close>, one line logged, no row, and nothing more.
\<close>

theorem persistence_failure_contained:
  assumes "BuildDictionary env ''dictionary.txt'' = Inr dictionary"
      and "initializeDB env (flag_db fl) = None"
      and "ParseCIDR env (flag_network fl) = Inr (ipv4_cidr a b c d p)"
      and "1 \<le> p" "p \<le> 32" "0 < flag_goroutines fl"
      and "2 ^ (32 - p) < fuel"
  shows "(\<exists>s' evs. main fuel env fl s = Returned s' \<and> trace s' = trace s @ evs \<and>
            length (dispatched evs) = 2 ^ (32 - p) \<and>
            (\<forall>ip \<in> set (dispatched evs).
               (primary_name env ip (flag_domain fl) dictionary, server_of env ip) \<in> set (sent evs) \<and>
               (answers env (primary_name env ip (flag_domain fl) dictionary) (server_of env ip) \<longrightarrow>
                  (\<exists>a. (IP_String env ip, flag_domain fl,
                         dnsQuestionToString (primary_name env ip (flag_domain fl) dictionary) TypeA, a)
                          \<in> set (inserted evs))))) \<and>
         (\<not> primary_query_fails env ip (flag_domain fl) dictionary s1 \<and>
          \<not> primary_insert_fails env ip (flag_domain fl) dictionary s1 \<and> flag_domains fl \<noteq> [] \<longrightarrow>
            (\<exists>a row evs rows.
               trace (task env fl dictionary ip s1) =
                 trace s1 @ Sent (primary_name env ip (flag_domain fl) dictionary) (server_of env ip) #
                   Insert (IP_String env ip) (flag_domain fl)
                     (dnsQuestionToString (primary_name env ip (flag_domain fl) dictionary) TypeA) a # evs \<and>
               dns_queries (task env fl dictionary ip s1) = dns_queries s1 @ row # rows \<and>
               sent evs = map (\<lambda>d. (Fqdn d, server_of env ip)) (Split (flag_domains fl) CHR '','') \<and>
               (\<forall>d \<in> set (Split (flag_domains fl) CHR '','').
                  answers env (Fqdn d) (server_of env ip) \<longrightarrow>
                    (\<exists>a. (IP_String env ip, d, dnsQuestionToString (Fqdn d) TypeA, a)
                            \<in> set (inserted evs))) \<and>
               (\<forall>d \<in> set (Split (flag_domains fl) CHR '','').
                  answers env (Fqdn d) (server_of env ip) \<and> refuses env d \<longrightarrow>
                    (\<exists>err. ''Error querying additional DNS: '' @ err @ [CHR 0x0A] \<in> set (logged evs))) \<and>
               (\<forall>d. refuses env d \<longrightarrow> d \<notin> Domain ` set rows) \<and>
               (\<forall>d \<in> set (Split (flag_domains fl) CHR '','').
                  answers env (Fqdn d) (server_of env ip) \<and> stores env d \<longrightarrow>
                    d \<in> Domain ` set rows))) \<and>
         (primary_insert_fails env ip (flag_domain fl) dictionary s1 \<longrightarrow>
            (\<exists>a err.
               trace (task env fl dictionary ip s1) =
                 trace s1 @ [Sent (primary_name env ip (flag_domain fl) dictionary) (server_of env ip),
                             Insert (IP_String env ip) (flag_domain fl)
                               (dnsQuestionToString (primary_name env ip (flag_domain fl) dictionary) TypeA) a,
                             Logged (''Error querying DNS: '' @ err @ [CHR 0x0A])] \<and>
               dns_queries (task env fl dictionary ip s1) = dns_queries s1))"
proof (intro conjI impI)
  obtain ips where ips:
    "main fuel env fl s = Returned (run_tasks env fl dictionary ips s)"
    "map ip_val ips = [ip_val (network_address a b c d p) ..<
                       ip_val (network_address a b c d p) + 2 ^ (32 - p)]"
    using main_block [OF assms, of s] by blast
  have "length (map ip_val ips) = 2 ^ (32 - p)"
    unfolding ips(2) by simp
  then have n: "length ips = 2 ^ (32 - p)" by simp
  obtain evs where e:
    "trace (run_tasks env fl dictionary ips s) = trace s @ evs" "dispatched evs = ips"
    "\<forall>ip \<in> set ips.
       (primary_name env ip (flag_domain fl) dictionary, server_of env ip) \<in> set (sent evs) \<and>
       (answers env (primary_name env ip (flag_domain fl) dictionary) (server_of env ip) \<longrightarrow>
          (\<exists>a. (IP_String env ip, flag_domain fl,
                 dnsQuestionToString (primary_name env ip (flag_domain fl) dictionary) TypeA, a)
                  \<in> set (inserted evs)))"
    using run_tasks_events [of env fl dictionary ips s] by blast
  show "\<exists>s' evs. main fuel env fl s = Returned s' \<and> trace s' = trace s @ evs \<and>
            length (dispatched evs) = 2 ^ (32 - p) \<and>
            (\<forall>ip \<in> set (dispatched evs).
               (primary_name env ip (flag_domain fl) dictionary, server_of env ip) \<in> set (sent evs) \<and>
               (answers env (primary_name env ip (flag_domain fl) dictionary) (server_of env ip) \<longrightarrow>
                  (\<exists>a. (IP_String env ip, flag_domain fl,
                         dnsQuestionToString (primary_name env ip (flag_domain fl) dictionary) TypeA, a)
                          \<in> set (inserted evs))))"
    using ips(1) e(1) n e(3) unfolding e(2) [symmetric] by blast
next
  assume ok: "\<not> primary_query_fails env ip (flag_domain fl) dictionary s1 \<and>
          \<not> primary_insert_fails env ip (flag_domain fl) dictionary s1 \<and> flag_domains fl \<noteq> []"
  let ?ds = "Split (flag_domains fl) CHR '',''"
  obtain a0 row s2 where p:
    "trace s2 = trace s1 @ [Sent (primary_name env ip (flag_domain fl) dictionary) (server_of env ip),
                        Insert (IP_String env ip) (flag_domain fl)
                          (dnsQuestionToString (primary_name env ip (flag_domain fl) dictionary) TypeA) a0]"
    "dns_queries s2 = dns_queries s1 @ [row]"
    "task env fl dictionary ip s1 = additional_loop env ip dictionary ?ds s2"
    using task_after_primary [of env ip fl dictionary s1] ok by blast
  obtain evs rows where l:
    "trace (additional_loop env ip dictionary ?ds s2) = trace s2 @ evs"
    "dns_queries (additional_loop env ip dictionary ?ds s2) = dns_queries s2 @ rows"
    "sent evs = map (\<lambda>d. (Fqdn d, server_of env ip)) ?ds"
    "\<forall>d \<in> set ?ds. answers env (Fqdn d) (server_of env ip) \<longrightarrow>
        (\<exists>a. (IP_String env ip, d, dnsQuestionToString (Fqdn d) TypeA, a) \<in> set (inserted evs))"
    "\<forall>d \<in> set ?ds. answers env (Fqdn d) (server_of env ip) \<and> refuses env d \<longrightarrow>
        (\<exists>err. ''Error querying additional DNS: '' @ err @ [CHR 0x0A] \<in> set (logged evs))"
    "\<forall>d. refuses env d \<longrightarrow> d \<notin> Domain ` set rows"
    "\<forall>d \<in> set ?ds. answers env (Fqdn d) (server_of env ip) \<and> stores env d \<longrightarrow>
        d \<in> Domain ` set rows"
    using additional_loop_events [of env ip dictionary ?ds s2] by blast
  have 1: "trace (task env fl dictionary ip s1) =
                 trace s1 @ Sent (primary_name env ip (flag_domain fl) dictionary) (server_of env ip) #
                   Insert (IP_String env ip) (flag_domain fl)
                     (dnsQuestionToString (primary_name env ip (flag_domain fl) dictionary) TypeA) a0 # evs"
    unfolding p(3) l(1) p(1) by simp
  have 2: "dns_queries (task env fl dictionary ip s1) = dns_queries s1 @ row # rows"
    unfolding p(3) l(2) p(2) by simp
  show "\<exists>a row evs rows.
               trace (task env fl dictionary ip s1) =
                 trace s1 @ Sent (primary_name env ip (flag_domain fl) dictionary) (server_of env ip) #
                   Insert (IP_String env ip) (flag_domain fl)
                     (dnsQuestionToString (primary_name env ip (flag_domain fl) dictionary) TypeA) a # evs \<and>
               dns_queries (task env fl dictionary ip s1) = dns_queries s1 @ row # rows \<and>
               sent evs = map (\<lambda>d. (Fqdn d, server_of env ip)) ?ds \<and>
               (\<forall>d \<in> set ?ds.
                  answers env (Fqdn d) (server_of env ip) \<longrightarrow>
                    (\<exists>a. (IP_String env ip, d, dnsQuestionToString (Fqdn d) TypeA, a)
                            \<in> set (inserted evs))) \<and>
               (\<forall>d \<in> set ?ds.
                  answers env (Fqdn d) (server_of env ip) \<and> refuses env d \<longrightarrow>
                    (\<exists>err. ''Error querying additional DNS: '' @ err @ [CHR 0x0A] \<in> set (logged evs))) \<and>
               (\<forall>d. refuses env d \<longrightarrow> d \<notin> Domain ` set rows) \<and>
               (\<forall>d \<in> set ?ds.
                  answers env (Fqdn d) (server_of env ip) \<and> stores env d \<longrightarrow>
                    d \<in> Domain ` set rows)"
    using 1 2 l(3,4,5,6,7) by blast
next
  assume "primary_insert_fails env ip (flag_domain fl) dictionary s1"
  then show "\<exists>a err.
               trace (task env fl dictionary ip s1) =
                 trace s1 @ [Sent (primary_name env ip (flag_domain fl) dictionary) (server_of env ip),
                             Insert (IP_String env ip) (flag_domain fl)
                               (dnsQuestionToString (primary_name env ip (flag_domain fl) dictionary) TypeA) a,
                             Logged (''Error querying DNS: '' @ err @ [CHR 0x0A])] \<and>
               dns_queries (task env fl dictionary ip s1) = dns_queries s1"
    by (rule task_primary_write_fails)
qed

text \<open>
  On 10.0.0.8/30 with the additional domains \<open>a.example\<close>, \<open>b.example\<close>,
  \<open>c.example\<close> and a database that refuses the rows of \<open>b.example\<close>: the failure
  is logged, \<open>c.example\<close> is still asked and stored. And the task of 10.0.0.8 with a
  database that refuses every row.
\<close>

theorem persistence_failure_contained_witness:
  "(\<exists>s' evs. main 5 env_b_refused fl_abc s_init = Returned s' \<and> trace s' = evs \<and>
      length (dispatched evs) = 4 \<and>
      list_all (\<lambda>ip. (primary_name env_b_refused ip ''example.com'' [], server_of env_b_refused ip)
                        \<in> set (sent evs) \<and>
                     (\<exists>a. (IP_String env_b_refused ip, ''example.com'',
                            dnsQuestionToString (primary_name env_b_refused ip ''example.com'' []) TypeA, a)
                             \<in> set (inserted evs)))
        (dispatched evs)) \<and>
   (\<exists>a row evs rows.
      trace (task env_b_refused fl_abc [] [10, 0, 0, 8] s_init) =
        Sent ''tok.example.com.'' ''10.0.0.8:53'' #
        Insert ''10.0.0.8'' ''example.com'' ''tok.example.com. A'' a # evs \<and>
      dns_queries (task env_b_refused fl_abc [] [10, 0, 0, 8] s_init) = row # rows \<and>
      sent evs = [(''a.example.'', ''10.0.0.8:53''), (''b.example.'', ''10.0.0.8:53''),
                  (''c.example.'', ''10.0.0.8:53'')] \<and>
      (\<exists>a. (''10.0.0.8'', ''b.example'', ''b.example. A'', a) \<in> set (inserted evs)) \<and>
      (\<exists>a. (''10.0.0.8'', ''c.example'', ''c.example. A'', a) \<in> set (inserted evs)) \<and>
      (\<exists>err. ''Error querying additional DNS: '' @ err @ [CHR 0x0A] \<in> set (logged evs)) \<and>
      ''b.example'' \<notin> Domain ` set rows \<and>
      ''a.example'' \<in> Domain ` set rows \<and> ''c.example'' \<in> Domain ` set rows) \<and>
   (\<exists>a err.
      trace (task env_db_fails fl_30 [] [10, 0, 0, 8] s_init) =
        [Sent ''tok.example.com.'' ''10.0.0.8:53'',
         Insert ''10.0.0.8'' ''example.com'' ''tok.example.com. A'' a,
         Logged (''Error querying DNS: '' @ err @ [CHR 0x0A])] \<and>
      dns_queries (task env_db_fails fl_30 [] [10, 0, 0, 8] s_init) = [])"
proof -
  let ?ip = "[10, 0, 0, 8] :: IP"
  have h1: "BuildDictionary env_b_refused ''dictionary.txt'' = Inr []"
    and h2: "initializeDB env_b_refused (flag_db fl_abc) = None"
    and h3: "ParseCIDR env_b_refused (flag_network fl_abc) = Inr (ipv4_cidr 10 0 0 8 30)"
    by (simp_all add: env_b_refused_def example_init example_parse_def fl_abc_def fl_30_def)
  have g1: "BuildDictionary env_db_fails ''dictionary.txt'' = Inr []"
    and g2: "initializeDB env_db_fails (flag_db fl_30) = None"
    and g3: "ParseCIDR env_db_fails (flag_network fl_30) = Inr (ipv4_cidr 10 0 0 8 30)"
    by (simp_all add: env_db_fails_def example_init example_parse_def fl_30_def)
  have h4: "(1 :: nat) \<le> 30" and h5: "(30 :: nat) \<le> 32" and h7: "(2 :: nat) ^ (32 - 30) < 5"
    by simp_all
  have h6: "0 < flag_goroutines fl_abc" and g6: "0 < flag_goroutines fl_30"
    by (simp_all add: fl_abc_def fl_30_def)
  have dm: "flag_domain fl_abc = ''example.com''" "flag_domain fl_30 = ''example.com''"
    and ds: "Split (flag_domains fl_abc) CHR '','' = [''a.example'', ''b.example'', ''c.example'']"
    and ne: "flag_domains fl_abc \<noteq> []"
    by (simp_all add: fl_abc_def fl_30_def)
  have an: "\<And>name server. answers env_b_refused name server"
    by (simp add: answers_def env_b_refused_def example_env_def)
  have rf: "refuses env_b_refused ''b.example''"
    and st: "stores env_b_refused ''a.example''" "stores env_b_refused ''c.example''"
    by (simp_all add: refuses_def stores_def env_b_refused_def example_env_def)
  have ok: "\<not> primary_query_fails env_b_refused ?ip (flag_domain fl_abc) [] s_init \<and>
            \<not> primary_insert_fails env_b_refused ?ip (flag_domain fl_abc) [] s_init \<and>
            flag_domains fl_abc \<noteq> []"
    using ne by (simp add: dm eval_defs env_b_refused_def)
  have pf: "primary_insert_fails env_db_fails ?ip (flag_domain fl_30) [] s_init"
    by (simp add: dm eval_defs env_db_fails_def)
  have nm: "primary_name env_b_refused ?ip ''example.com'' [] = ''tok.example.com.''"
      "server_of env_b_refused ?ip = ''10.0.0.8:53''" "IP_String env_b_refused ?ip = ''10.0.0.8''"
      "primary_name env_db_fails ?ip ''example.com'' [] = ''tok.example.com.''"
      "server_of env_db_fails ?ip = ''10.0.0.8:53''" "IP_String env_db_fails ?ip = ''10.0.0.8''"
      "\<And>x. dnsQuestionToString x TypeA = x @ '' A''"
      "Fqdn ''a.example'' = ''a.example.''" "Fqdn ''b.example'' = ''b.example.''"
      "Fqdn ''c.example'' = ''c.example.''"
    by (simp_all add: eval_defs env_b_refused_def env_db_fails_def)
  have t0: "trace s_init = []" "dns_queries s_init = []" by (simp_all add: s_init_def)
  note T = persistence_failure_contained [OF h1 h2 h3 h4 h5 h6 h7, of s_init ?ip s_init]
  note U = persistence_failure_contained [OF g1 g2 g3 h4 h5 g6 h7, of s_init ?ip s_init]
  have A: "\<exists>s' evs. main 5 env_b_refused fl_abc s_init = Returned s' \<and> trace s' = evs \<and>
      length (dispatched evs) = 4 \<and>
      list_all (\<lambda>ip. (primary_name env_b_refused ip ''example.com'' [], server_of env_b_refused ip)
                        \<in> set (sent evs) \<and>
                     (\<exists>a. (IP_String env_b_refused ip, ''example.com'',
                            dnsQuestionToString (primary_name env_b_refused ip ''example.com'' []) TypeA, a)
                             \<in> set (inserted evs)))
        (dispatched evs)"
    using T [THEN conjunct1] unfolding dm t0 by (simp add: an list_all_iff)
  have "\<exists>a row evs rows.
    trace (task env_b_refused fl_abc [] ?ip s_init) =
        Sent ''tok.example.com.'' ''10.0.0.8:53'' #
        Insert ''10.0.0.8'' ''example.com'' (''tok.example.com.'' @ '' A'') a # evs \<and>
    dns_queries (task env_b_refused fl_abc [] ?ip s_init) = row # rows \<and>
    sent evs = map (\<lambda>d. (Fqdn d, ''10.0.0.8:53'')) [''a.example'', ''b.example'', ''c.example''] \<and>
    (\<forall>d \<in> set [''a.example'', ''b.example'', ''c.example''].
        (\<exists>a. (''10.0.0.8'', d, Fqdn d @ '' A'', a) \<in> set (inserted evs))) \<and>
    (\<forall>d \<in> set [''a.example'', ''b.example'', ''c.example''].
        refuses env_b_refused d \<longrightarrow>
          (\<exists>err. ''Error querying additional DNS: '' @ err @ [CHR 0x0A] \<in> set (logged evs))) \<and>
    (\<forall>d. refuses env_b_refused d \<longrightarrow> d \<notin> Domain ` set rows) \<and>
    (\<forall>d \<in> set [''a.example'', ''b.example'', ''c.example''].
        stores env_b_refused d \<longrightarrow> d \<in> Domain ` set rows)"
    using T [THEN conjunct2, THEN conjunct1, THEN mp, OF ok]
    unfolding dm t0 ds nm(1,2,3,7) by (simp only: an simp_thms append_Nil)
  then obtain a row evs rows where B0:
    "trace (task env_b_refused fl_abc [] ?ip s_init) =
        Sent ''tok.example.com.'' ''10.0.0.8:53'' #
        Insert ''10.0.0.8'' ''example.com'' (''tok.example.com.'' @ '' A'') a # evs"
    "dns_queries (task env_b_refused fl_abc [] ?ip s_init) = row # rows"
    "sent evs = map (\<lambda>d. (Fqdn d, ''10.0.0.8:53'')) [''a.example'', ''b.example'', ''c.example'']"
    "\<forall>d \<in> set [''a.example'', ''b.example'', ''c.example''].
        (\<exists>a. (''10.0.0.8'', d, Fqdn d @ '' A'', a) \<in> set (inserted evs))"
    "\<forall>d \<in> set [''a.example'', ''b.example'', ''c.example''].
        refuses env_b_refused d \<longrightarrow>
          (\<exists>err. ''Error querying additional DNS: '' @ err @ [CHR 0x0A] \<in> set (logged evs))"
    "\<forall>d. refuses env_b_refused d \<longrightarrow> d \<notin> Domain ` set rows"
    "\<forall>d \<in> set [''a.example'', ''b.example'', ''c.example''].
        stores env_b_refused d \<longrightarrow> d \<in> Domain ` set rows"
    by (elim exE conjE) (rule that)
  have B: "\<exists>a row evs rows.
      trace (task env_b_refused fl_abc [] ?ip s_init) =
        Sent ''tok.example.com.'' ''10.0.0.8:53'' #
        Insert ''10.0.0.8'' ''example.com'' ''tok.example.com. A'' a # evs \<and>
      dns_queries (task env_b_refused fl_abc [] ?ip s_init) = row # rows \<and>
      sent evs = [(''a.example.'', ''10.0.0.8:53''), (''b.example.'', ''10.0.0.8:53''),
                  (''c.example.'', ''10.0.0.8:53'')] \<and>
      (\<exists>a. (''10.0.0.8'', ''b.example'', ''b.example. A'', a) \<in> set (inserted evs)) \<and>
      (\<exists>a. (''10.0.0.8'', ''c.example'', ''c.example. A'', a) \<in> set (inserted evs)) \<and>
      (\<exists>err. ''Error querying additional DNS: '' @ err @ [CHR 0x0A] \<in> set (logged evs)) \<and>
      ''b.example'' \<notin> Domain ` set rows \<and>
      ''a.example'' \<in> Domain ` set rows \<and> ''c.example'' \<in> Domain ` set rows"
  proof -
    have s: "sent evs = [(''a.example.'', ''10.0.0.8:53''), (''b.example.'', ''10.0.0.8:53''),
                  (''c.example.'', ''10.0.0.8:53'')]"
      unfolding B0(3) by (simp add: nm(8,9,10))
    have ib: "\<exists>a. (''10.0.0.8'', ''b.example'', ''b.example. A'', a) \<in> set (inserted evs)"
      using B0(4) [THEN bspec, of "''b.example''"] by (simp add: nm(9))
    have ic: "\<exists>a. (''10.0.0.8'', ''c.example'', ''c.example. A'', a) \<in> set (inserted evs)"
      using B0(4) [THEN bspec, of "''c.example''"] by (simp add: nm(10))
    have lg: "\<exists>err. ''Error querying additional DNS: '' @ err @ [CHR 0x0A] \<in> set (logged evs)"
      using B0(5) [THEN bspec, of "''b.example''"] rf by simp
    have nb: "''b.example'' \<notin> Domain ` set rows"
      using B0(6) rf by blast
    have ra: "''a.example'' \<in> Domain ` set rows"
      using B0(7) [THEN bspec, of "''a.example''"] st(1) by simp
    have rc: "''c.example'' \<in> Domain ` set rows"
      using B0(7) [THEN bspec, of "''c.example''"] st(2) by simp
    have t: "trace (task env_b_refused fl_abc [] ?ip s_init) =
        Sent ''tok.example.com.'' ''10.0.0.8:53'' #
        Insert ''10.0.0.8'' ''example.com'' ''tok.example.com. A'' a # evs"
      using B0(1) by simp
    show ?thesis using t B0(2) s ib ic lg nb ra rc by blast
  qed
  have C: "\<exists>a err.
      trace (task env_db_fails fl_30 [] ?ip s_init) =
        [Sent ''tok.example.com.'' ''10.0.0.8:53'',
         Insert ''10.0.0.8'' ''example.com'' ''tok.example.com. A'' a,
         Logged (''Error querying DNS: '' @ err @ [CHR 0x0A])] \<and>
      dns_queries (task env_db_fails fl_30 [] ?ip s_init) = []"
    using U [THEN conjunct2, THEN conjunct2, THEN mp, OF pf]
    unfolding dm t0 nm(4,5,6,7) by simp
  show ?thesis using A B C by (intro conjI)
qed

text \<open>
  C5 as stated fails there: the primary record of 10.0.0.8 cannot be written,
  \<open>a.example\<close> is a configured additional domain, and no question for it is sent.
\<close>

theorem primary_insert_failure_skips_additional:
  "primary_insert_fails env_db_fails [10, 0, 0, 8] ''example.com'' [] s_init \<and>
   ''a.example'' \<in> set (Split ''a.example'' CHR '','') \<and>
   (Fqdn ''a.example'', server_of env_db_fails [10, 0, 0, 8])
      \<notin> set (sent (trace (snd (queryDNS env_db_fails [10, 0, 0, 8] ''example.com'' ''a.example'' [] s_init))))"
  by (simp add: eval_defs env_defs)

subsection \<open>C6: the additional domains\<close>

text \<open>
  Claim C6 says that for every scheduled address the additional domains are queried in
  order, and that a failure for one of them costs only its own record. The loop is
  reached only after a successful primary step, so the claim is amended.

  C6 as amended: for an address whose primary query and record succeed, the questions
  sent are the primary one and then one per additional domain, in the order given,
  each for the name as given (made fully qualified by \<open>dns.Fqdn\<close>, no token in
  front) and to the scanned address; the primary record is stored first and stays; the
  records of the additional domains follow in the order given, at most one per domain;
  a domain whose server never answers has no record, and a domain whose server always
  answers has its record handed to the store, whatever happens to the others.
\<close>

theorem additional_domains_in_order:
  assumes "\<not> primary_query_fails env ip domain dictionary s"
      and "\<not> primary_insert_fails env ip domain dictionary s"
      and "domains \<noteq> []"
  shows "sent (trace (snd (queryDNS env ip domain domains dictionary s))) =
           sent (trace s) @ (primary_name env ip domain dictionary, server_of env ip) #
             map (\<lambda>d. (Fqdn d, server_of env ip)) (Split domains CHR '','') \<and>
         (\<exists>row0 rows a0 ins.
            dns_queries (snd (queryDNS env ip domain domains dictionary s)) = dns_queries s @ row0 # rows \<and>
            Ip row0 = IP_String env ip \<and> Domain row0 = domain \<and>
            inserted (trace (snd (queryDNS env ip domain domains dictionary s))) =
              inserted (trace s) @
                (IP_String env ip, domain, dnsQuestionToString (primary_name env ip domain dictionary) TypeA, a0) # ins \<and>
            set (map row_key rows) \<subseteq> set ins \<and>
            subseq (map domain_of ins) (Split domains CHR '','') \<and>
            (\<forall>d. never_answers env (Fqdn d) (server_of env ip) \<longrightarrow> d \<notin> domain_of ` set ins) \<and>
            (\<forall>d \<in> set (Split domains CHR '','').
                answers env (Fqdn d) (server_of env ip) \<longrightarrow> d \<in> domain_of ` set ins))"
proof -
  let ?ds = "Split domains CHR '',''"
  obtain rrs s2 where
    i: "primary_insert env ip domain dictionary rrs s = (None, s2)" and
    q: "queryDNS env ip domain domains dictionary s =
       (None, if domains \<noteq> [] then additional_loop env ip dictionary ?ds s2 else s2)"
    using queryDNS_succeeds [OF assms(1,2), of domains] by metis
  have q': "snd (queryDNS env ip domain domains dictionary s) = additional_loop env ip dictionary ?ds s2"
    using q assms(3) by simp
  have t2: "trace s2 = trace s @ [Sent (primary_name env ip domain dictionary) (server_of env ip),
                Insert (IP_String env ip) domain
                  (dnsQuestionToString (primary_name env ip domain dictionary) TypeA) (dnsRRToString rrs)]"
    using primary_insert_trace [of env ip domain dictionary rrs s] i by simp
  obtain row0 where r2: "dns_queries s2 = dns_queries s @ [row0]"
    "Ip row0 = IP_String env ip" "Domain row0 = domain"
    using primary_insert_rows_ok [of env ip domain dictionary rrs s] i by simp
  obtain ins rows where l:
    "inserted (trace (additional_loop env ip dictionary ?ds s2)) = inserted (trace s2) @ ins"
    "dns_queries (additional_loop env ip dictionary ?ds s2) = dns_queries s2 @ rows"
    "set (map row_key rows) \<subseteq> set ins"
    "subseq (map domain_of ins) ?ds"
    "\<forall>d. never_answers env (Fqdn d) (server_of env ip) \<longrightarrow> d \<notin> domain_of ` set ins"
    "\<forall>d \<in> set ?ds. answers env (Fqdn d) (server_of env ip) \<longrightarrow> d \<in> domain_of ` set ins"
    using additional_loop_inserted [of env ip dictionary ?ds s2] by blast
  have "sent (trace (snd (queryDNS env ip domain domains dictionary s))) =
           sent (trace s) @ (primary_name env ip domain dictionary, server_of env ip) #
             map (\<lambda>d. (Fqdn d, server_of env ip)) ?ds"
    unfolding q' by (simp add: additional_loop_sent t2)
  moreover have "dns_queries (snd (queryDNS env ip domain domains dictionary s)) = dns_queries s @ row0 # rows"
    unfolding q' using l(2) r2(1) by simp
  moreover have "inserted (trace (snd (queryDNS env ip domain domains dictionary s))) =
              inserted (trace s) @
                (IP_String env ip, domain, dnsQuestionToString (primary_name env ip domain dictionary) TypeA,
                 dnsRRToString rrs) # ins"
    unfolding q' using l(1) t2 by simp
  ultimately show ?thesis
    using r2(2,3) l(3,4,5,6) by blast
qed

text \<open>At 1.2.3.4 with three additional domains, of which the second times out.\<close>

theorem additional_domains_in_order_witness:
  "sent (trace (snd (queryDNS env_one_down [1, 2, 3, 4] ''example.com'' ''a.example,b.example,c.example'' [] s_init))) =
     [(''tok.example.com.'', ''1.2.3.4:53''), (''a.example.'', ''1.2.3.4:53''),
      (''b.example.'', ''1.2.3.4:53''), (''c.example.'', ''1.2.3.4:53'')] \<and>
   map Domain (dns_queries (snd (queryDNS env_one_down [1, 2, 3, 4] ''example.com'' ''a.example,b.example,c.example'' [] s_init))) =
     [''example.com'', ''a.example'', ''c.example'']"
proof -
  let ?q = "queryDNS env_one_down [1, 2, 3, 4] ''example.com'' ''a.example,b.example,c.example'' [] s_init"
  have a: "\<not> primary_query_fails env_one_down [1, 2, 3, 4] ''example.com'' [] s_init"
    by (simp add: eval_defs env_defs)
  have b: "\<not> primary_insert_fails env_one_down [1, 2, 3, 4] ''example.com'' [] s_init"
    by (simp add: eval_defs env_defs)
  have c: "''a.example,b.example,c.example'' \<noteq> []" by simp
  have n: "primary_name env_one_down [1, 2, 3, 4] ''example.com'' [] = ''tok.example.com.''"
    by (simp add: eval_defs env_defs)
  have v: "server_of env_one_down [1, 2, 3, 4] = ''1.2.3.4:53''"
    by (simp add: eval_defs env_defs)
  have sp: "Split ''a.example,b.example,c.example'' CHR '','' = [''a.example'', ''b.example'', ''c.example'']"
    by simp
  have f: "map Fqdn [''a.example'', ''b.example'', ''c.example''] = [''a.example.'', ''b.example.'', ''c.example.'']"
    by (simp add: Fqdn_def IsFqdn_def)
  have "sent (trace (snd ?q)) =
     [(''tok.example.com.'', ''1.2.3.4:53''), (''a.example.'', ''1.2.3.4:53''),
      (''b.example.'', ''1.2.3.4:53''), (''c.example.'', ''1.2.3.4:53'')]"
    using additional_domains_in_order [OF a b c] f
    by (simp add: n v sp s_init_def)
  moreover have "map Domain (dns_queries (snd ?q)) = [''example.com'', ''a.example'', ''c.example'']"
    by (simp add: eval_defs env_defs)
  ultimately show ?thesis by simp
qed

text \<open>
  C6 as stated fails where the primary query times out: of two additional domains
  configured, none is queried.
\<close>

theorem primary_failure_leaves_order_unserved:
  "primary_query_fails env_down [1, 2, 3, 4] ''example.com'' [] s_init \<and>
   Split ''a.example,b.example'' CHR '','' = [''a.example'', ''b.example''] \<and>
   sent (trace (snd (queryDNS env_down [1, 2, 3, 4] ''example.com'' ''a.example,b.example'' [] s_init))) =
     [(''tok.example.com.'', ''1.2.3.4:53'')]"
  by (simp add: eval_defs env_defs)

subsection \<open>C7: the primary record\<close>

text \<open>
  Claim C7: a successful primary-domain exchange produces exactly one record, with the
  primary domain, the text of the address, and a query that contains the token, a dot
  and the primary domain; the question goes to the scanned address, port 53.

  After a primary exchange that succeeds with answer \<open>rrs\<close>: the first record that
  \<open>queryDNS\<close> hands to \<open>insertIntoDB\<close> is that one, and every later one belongs
  to an additional domain; its query starts with the token, a dot and the domain; the
  first question sent is the primary one, to \<open>ip.String()\<close> and port 53; and when
  the write succeeds the row is stored.
\<close>

theorem primary_record:
  assumes "Exchange env (trace s) (primary_name env ip domain dictionary) (server_of env ip) = Inr rrs"
  shows "(\<exists>ins more.
            inserted (trace (snd (queryDNS env ip domain domains dictionary s))) =
              inserted (trace s) @
                (IP_String env ip, domain, primary_name env ip domain dictionary @ '' A'', dnsRRToString rrs) # ins \<and>
            subseq (map domain_of ins) (Split domains CHR '','') \<and>
            sent (trace (snd (queryDNS env ip domain domains dictionary s))) =
              sent (trace s) @ (primary_name env ip domain dictionary, server_of env ip) # more) \<and>
         prefix (EncodeIPAddress env ip dictionary @ ''.'' @ domain) (primary_name env ip domain dictionary @ '' A'') \<and>
         (length ip = 4 \<longrightarrow> server_of env ip = IP_String env ip @ '':53'') \<and>
         (fst (primary_insert env ip domain dictionary rrs s) = None \<longrightarrow>
            (\<exists>row rows.
               dns_queries (snd (queryDNS env ip domain domains dictionary s)) = dns_queries s @ row # rows \<and>
               Ip row = IP_String env ip \<and> Domain row = domain \<and>
               Query row = primary_name env ip domain dictionary @ '' A'' \<and>
               Answer row = dnsRRToString rrs))"
proof -
  let ?ds = "Split domains CHR '',''"
  let ?q = "queryDNS env ip domain domains dictionary s"
  let ?rec = "(IP_String env ip, domain, primary_name env ip domain dictionary @ '' A'', dnsRRToString rrs)"
  have qs: "dnsQuestionToString (primary_name env ip domain dictionary) TypeA =
              primary_name env ip domain dictionary @ '' A''"
    by (simp add: dnsQuestionToString_def TypeToString_def)
  obtain r s2 where i: "primary_insert env ip domain dictionary rrs s = (r, s2)"
    by (cases "primary_insert env ip domain dictionary rrs s")
  have t2: "trace s2 = trace s @ [Sent (primary_name env ip domain dictionary) (server_of env ip),
                Insert (IP_String env ip) domain (primary_name env ip domain dictionary @ '' A'') (dnsRRToString rrs)]"
    using primary_insert_trace [of env ip domain dictionary rrs s] i qs by simp
  have q: "snd ?q = (if r = None \<and> domains \<noteq> [] then additional_loop env ip dictionary ?ds s2 else s2)"
    using queryDNS_exchange_ok [OF assms, of domains] i by (auto split: option.splits)
  obtain ins rows where l:
    "inserted (trace (additional_loop env ip dictionary ?ds s2)) = inserted (trace s2) @ ins"
    "dns_queries (additional_loop env ip dictionary ?ds s2) = dns_queries s2 @ rows"
    "subseq (map domain_of ins) ?ds"
    using additional_loop_inserted [of env ip dictionary ?ds s2] by blast
  have A: "\<exists>ins more.
            inserted (trace (snd ?q)) = inserted (trace s) @ ?rec # ins \<and>
            subseq (map domain_of ins) ?ds \<and>
            sent (trace (snd ?q)) =
              sent (trace s) @ (primary_name env ip domain dictionary, server_of env ip) # more"
  proof (cases "r = None \<and> domains \<noteq> []")
    case True
    then show ?thesis
      using q l(1,3) t2 additional_loop_sent [of env ip dictionary ?ds s2] by simp
  next
    case False
    have "snd ?q = s2" unfolding q by (rule if_not_P [OF False])
    then show ?thesis using t2 by simp
  qed
  have B: "prefix (EncodeIPAddress env ip dictionary @ ''.'' @ domain) (primary_name env ip domain dictionary @ '' A'')"
    unfolding primary_name_def
    by (rule prefix_order.trans [OF Fqdn_prefix]) simp
  have C: "length ip = 4 \<Longrightarrow> server_of env ip = IP_String env ip @ '':53''"
    by (rule server_of_4)
  have D: "\<exists>row rows.
               dns_queries (snd ?q) = dns_queries s @ row # rows \<and>
               Ip row = IP_String env ip \<and> Domain row = domain \<and>
               Query row = primary_name env ip domain dictionary @ '' A'' \<and>
               Answer row = dnsRRToString rrs"
    if ok: "fst (primary_insert env ip domain dictionary rrs s) = None"
  proof -
    obtain row where r2: "dns_queries s2 = dns_queries s @ [row]"
      "Ip row = IP_String env ip" "Domain row = domain"
      "Query row = primary_name env ip domain dictionary @ '' A''" "Answer row = dnsRRToString rrs"
      using primary_insert_rows_ok [OF ok] i qs by simp
    show ?thesis
    proof (cases "r = None \<and> domains \<noteq> []")
      case True
      then have "dns_queries (snd ?q) = dns_queries s @ row # rows" using q l(2) r2(1) by simp
      then show ?thesis using r2 by blast
    next
      case False
      have "snd ?q = s2" unfolding q by (rule if_not_P [OF False])
      then have "dns_queries (snd ?q) = dns_queries s @ row # []" using r2(1) by simp
      then show ?thesis using r2 by blast
    qed
  qed
  show ?thesis using A B C D by blast
qed

text \<open>At 1.2.3.4 with domain \<open>example.com\<close>, token \<open>tok\<close> and no additional domain.\<close>

theorem primary_record_witness:
  "Exchange env_up (trace s_init) (primary_name env_up [1, 2, 3, 4] ''example.com'' []) (server_of env_up [1, 2, 3, 4]) =
     Inr [''tok.example.com. 60 IN A 192.0.2.1''] \<and>
   inserted (trace (snd (queryDNS env_up [1, 2, 3, 4] ''example.com'' [] [] s_init))) =
     [(''1.2.3.4'', ''example.com'', ''tok.example.com. A'', ''tok.example.com. 60 IN A 192.0.2.1'' @ [CHR 0x0A])] \<and>
   sent (trace (snd (queryDNS env_up [1, 2, 3, 4] ''example.com'' [] [] s_init))) =
     [(''tok.example.com.'', ''1.2.3.4:53'')] \<and>
   map row_key (dns_queries (snd (queryDNS env_up [1, 2, 3, 4] ''example.com'' [] [] s_init))) =
     [(''1.2.3.4'', ''example.com'', ''tok.example.com. A'', ''tok.example.com. 60 IN A 192.0.2.1'' @ [CHR 0x0A])]"
proof -
  have x: "Exchange env_up (trace s_init) (primary_name env_up [1, 2, 3, 4] ''example.com'' []) (server_of env_up [1, 2, 3, 4]) =
     Inr [''tok.example.com. 60 IN A 192.0.2.1'']"
    by (simp add: eval_defs env_defs)
  have e: "inserted (trace (snd (queryDNS env_up [1, 2, 3, 4] ''example.com'' [] [] s_init))) =
     [(''1.2.3.4'', ''example.com'', ''tok.example.com. A'', ''tok.example.com. 60 IN A 192.0.2.1'' @ [CHR 0x0A])] \<and>
   sent (trace (snd (queryDNS env_up [1, 2, 3, 4] ''example.com'' [] [] s_init))) =
     [(''tok.example.com.'', ''1.2.3.4:53'')] \<and>
   map row_key (dns_queries (snd (queryDNS env_up [1, 2, 3, 4] ''example.com'' [] [] s_init))) =
     [(''1.2.3.4'', ''example.com'', ''tok.example.com. A'', ''tok.example.com. 60 IN A 192.0.2.1'' @ [CHR 0x0A])]"
    by (simp add: eval_defs env_defs row_key_def)
  show ?thesis
    using x e primary_record [OF x, of "[]"] by simp
qed

subsection \<open>C8: the number of records\<close>

text \<open>
  Claim C8: when every query and every write succeeds, a full scan of a block of \<open>A\<close>
  addresses with \<open>D\<close> additional domains stores \<open>A * (1 + D)\<close> records. Here the
  block is an IPv4 block of \<open>2 ^ (32 - p)\<close> addresses and \<open>D\<close> is the number of
  comma-separated parts of the \<open>-domains\<close> flag. For \<open>p \<ge> 1\<close> the scan does
  complete: \<open>main\<close> returns, within \<open>2 ^ (32 - p) + 1\<close> turns of its loop, and the
  table has grown by exactly that many rows. And a run that has returned, on any block,
  has stored that many rows; its block was not a /0, which is never scanned in full.
\<close>

theorem full_scan_count:
  assumes "BuildDictionary env ''dictionary.txt'' = Inr dictionary"
      and "initializeDB env (flag_db fl) = None"
      and "ParseCIDR env (flag_network fl) = Inr (ipv4_cidr a b c d p)"
      and "p \<le> 32" "0 < flag_goroutines fl"
      and "db_ok env" "net_ok env"
  shows "(1 \<le> p \<and> 2 ^ (32 - p) < fuel \<longrightarrow>
            (\<exists>s'. main fuel env fl s = Returned s' \<and>
                  length (dns_queries s') =
                    length (dns_queries s) + 2 ^ (32 - p) * (1 + additional_count (flag_domains fl)))) \<and>
         (\<forall>s'. main fuel env fl s = Returned s' \<longrightarrow>
            1 \<le> p \<and>
            length (dns_queries s') =
              length (dns_queries s) + 2 ^ (32 - p) * (1 + additional_count (flag_domains fl)))"
proof (intro conjI impI allI)
  assume b: "1 \<le> p \<and> 2 ^ (32 - p) < fuel"
  then have p1: "1 \<le> p" and f: "2 ^ (32 - p) < fuel" by simp_all
  obtain ips where ips: "main fuel env fl s = Returned (run_tasks env fl dictionary ips s)"
    using main_block [OF assms(1,2,3) p1 assms(4,5) f, of s] by blast
  show "\<exists>s'. main fuel env fl s = Returned s' \<and>
                  length (dns_queries s') =
                    length (dns_queries s) + 2 ^ (32 - p) * (1 + additional_count (flag_domains fl))"
    using ips main_returned_count [OF assms ips] by blast
next
  fix s'
  assume r: "main fuel env fl s = Returned s'"
  show "1 \<le> p" using main_returned_count [OF assms r] by simp
  show "length (dns_queries s') =
              length (dns_queries s) + 2 ^ (32 - p) * (1 + additional_count (flag_domains fl))"
    using main_returned_count [OF assms r] by simp
qed

text \<open>On 10.0.0.8/30 with one additional domain: 8 records.\<close>

theorem full_scan_count_witness:
  "\<exists>s'. main 5 env_up fl_30 s_init = Returned s' \<and> length (dns_queries s') = 8"
proof -
  have h1: "BuildDictionary env_up ''dictionary.txt'' = Inr []"
    and h2: "initializeDB env_up (flag_db fl_30) = None"
    and h3: "ParseCIDR env_up (flag_network fl_30) = Inr (ipv4_cidr 10 0 0 8 30)"
    by (simp_all add: env_up_def example_init example_parse_def fl_30_def)
  have h5: "(30 :: nat) \<le> 32" by simp
  have h6: "0 < flag_goroutines fl_30" by (simp add: fl_30_def)
  have db: "db_ok env_up" and nt: "net_ok env_up"
    by (simp_all add: db_ok_def net_ok_def env_up_def example_env_def)
  have ac: "additional_count (flag_domains fl_30) = 1"
    by (simp add: additional_count_def fl_30_def)
  have b: "(1 :: nat) \<le> 30 \<and> (2 :: nat) ^ (32 - 30) < 5" by simp
  show ?thesis
    using full_scan_count [OF h1 h2 h3 h5 h6 db nt, of 5 s_init, THEN conjunct1, THEN mp, OF b] ac
    by (simp add: s_init_def)
qed

subsection \<open>C9: a malformed block\<close>

text \<open>
  Claim C9: for a network text that \<open>net.ParseCIDR\<close> rejects, the program ends with
  \<open>log.Fatalf\<close> before any task is dispatched, any question sent or any record
  produced. The state is the one \<open>main\<close> started in; the message is the one of line
  62 when the dictionary and the database were set up, which come first.
\<close>

theorem malformed_cidr_is_fatal:
  assumes "ParseCIDR env (flag_network fl) = Inl err"
  shows "\<exists>msg. main fuel env fl s = Fatal msg s \<and>
           ((\<exists>dictionary. BuildDictionary env ''dictionary.txt'' = Inr dictionary) \<and>
            initializeDB env (flag_db fl) = None \<longrightarrow>
              msg = ''Error parsing CIDR: '' @ err @ [CHR 0x0A])"
  using assms by (auto simp: main_def split: sum.splits option.splits)

text \<open>With network text \<open>10.0.0.8\<close>, which has no prefix length.\<close>

theorem malformed_cidr_is_fatal_witness:
  "ParseCIDR env_up (flag_network fl_bad) = Inl ''invalid CIDR address: 10.0.0.8'' \<and>
   main 5 env_up fl_bad s_init = Fatal (''Error parsing CIDR: invalid CIDR address: 10.0.0.8'' @ [CHR 0x0A]) s_init"
proof -
  have h: "ParseCIDR env_up (flag_network fl_bad) = Inl ''invalid CIDR address: 10.0.0.8''"
    by (simp add: env_up_def example_init example_parse_def fl_bad_def fl_30_def)
  have "BuildDictionary env_up ''dictionary.txt'' = Inr []" "initializeDB env_up (flag_db fl_bad) = None"
    by (simp_all add: env_up_def example_init)
  then show ?thesis
    using h malformed_cidr_is_fatal [OF h, of 5 s_init] by auto
qed

subsection \<open>C10: empty parts of the list of additional domains\<close>

text \<open>
  Claim C10 says that with an empty \<open>-domains\<close> flag each task sends the primary
  question only, and that a flag such as \<open>example.com,\<close> makes every host be asked
  for the empty name as well. The second part holds for the hosts that reach the loop,
  so the claim is amended.

  C10 as amended: with an empty flag the primary question is the only one sent for an
  address; \<open>strings.Split\<close> keeps the empty part after a trailing comma; and for an
  address whose primary query and record succeed, an empty part in a non-empty flag
  makes \<open>queryDNS\<close> send a question for the empty name (the root name \<open>.\<close> once
  \<open>dns.Fqdn\<close> has qualified it) and, when that exchange and the write succeed, store
  a row whose domain is the empty string.
\<close>

theorem empty_segment_is_queried:
  "(domains = [] \<longrightarrow>
      sent (trace (snd (queryDNS env ip domain domains dictionary s))) =
        sent (trace s) @ [(primary_name env ip domain dictionary, server_of env ip)]) \<and>
   Split (xs @ '','') CHR '','' = Split xs CHR '','' @ [[]] \<and>
   (\<not> primary_query_fails env ip domain dictionary s \<and> \<not> primary_insert_fails env ip domain dictionary s \<and>
    domains \<noteq> [] \<and> [] \<in> set (Split domains CHR '','') \<longrightarrow>
      (''.'', server_of env ip) \<in> set (sent (trace (snd (queryDNS env ip domain domains dictionary s)))) \<and>
      (db_ok env \<and> answers env ''.'' (server_of env ip) \<longrightarrow>
         (\<exists>row \<in> set (dns_queries (snd (queryDNS env ip domain domains dictionary s))).
             Ip row = IP_String env ip \<and> Domain row = [] \<and> Query row = ''. A'')))"
proof -
  let ?q = "queryDNS env ip domain domains dictionary s"
  let ?ds = "Split domains CHR '',''"
  have A: "domains = [] \<Longrightarrow> sent (trace (snd ?q)) =
        sent (trace s) @ [(primary_name env ip domain dictionary, server_of env ip)]"
    by (simp add: queryDNS_sent)
  have B: "Split (xs @ '','') CHR '','' = Split xs CHR '','' @ [[]]"
    by (rule Split_snoc_sep)
  have C: "(''.'', server_of env ip) \<in> set (sent (trace (snd ?q))) \<and>
      (db_ok env \<and> answers env ''.'' (server_of env ip) \<longrightarrow>
         (\<exists>row \<in> set (dns_queries (snd ?q)).
             Ip row = IP_String env ip \<and> Domain row = [] \<and> Query row = ''. A''))"
    if h: "\<not> primary_query_fails env ip domain dictionary s" "\<not> primary_insert_fails env ip domain dictionary s"
       "domains \<noteq> []" "[] \<in> set ?ds"
  proof -
    obtain rrs s2 where
      q: "?q = (None, if domains \<noteq> [] then additional_loop env ip dictionary ?ds s2 else s2)"
      using queryDNS_succeeds [OF h(1,2), of domains] by metis
    then have q': "snd ?q = additional_loop env ip dictionary ?ds s2" using h(3) by simp
    have "(Fqdn [], server_of env ip) \<in> set (map (\<lambda>d. (Fqdn d, server_of env ip)) ?ds)"
      using h(4) by force
    then have 1: "(''.'', server_of env ip) \<in> set (sent (trace (snd ?q)))"
      unfolding q' by (simp add: additional_loop_sent Fqdn_empty)
    have 2: "\<exists>row \<in> set (dns_queries (snd ?q)).
             Ip row = IP_String env ip \<and> Domain row = [] \<and> Query row = ''. A''"
      if "db_ok env" "answers env ''.'' (server_of env ip)"
      using additional_loop_row [of env "[]" ip ?ds dictionary s2] that h(4)
      unfolding q' by (simp add: Fqdn_empty dnsQuestionToString_def TypeToString_def)
    show ?thesis using 1 2 by blast
  qed
  show ?thesis using A B C by blast
qed

text \<open>At 1.2.3.4 with flag \<open>example.com,\<close>.\<close>

theorem empty_segment_is_queried_witness:
  "Split ''example.com,'' CHR '','' = [''example.com'', []] \<and>
   sent (trace (snd (queryDNS env_up [1, 2, 3, 4] ''example.com'' ''example.com,'' [] s_init))) =
     [(''tok.example.com.'', ''1.2.3.4:53''), (''example.com.'', ''1.2.3.4:53''), (''.'', ''1.2.3.4:53'')] \<and>
   map Domain (dns_queries (snd (queryDNS env_up [1, 2, 3, 4] ''example.com'' ''example.com,'' [] s_init))) =
     [''example.com'', ''example.com'', []] \<and>
   (''.'', server_of env_up [1, 2, 3, 4])
      \<in> set (sent (trace (snd (queryDNS env_up [1, 2, 3, 4] ''example.com'' ''example.com,'' [] s_init)))) \<and>
   list_ex (\<lambda>row. Ip row = ''1.2.3.4'' \<and> Domain row = [] \<and> Query row = ''. A'')
     (dns_queries (snd (queryDNS env_up [1, 2, 3, 4] ''example.com'' ''example.com,'' [] s_init)))"
proof -
  let ?q = "queryDNS env_up [1, 2, 3, 4] ''example.com'' ''example.com,'' [] s_init"
  have a: "\<not> primary_query_fails env_up [1, 2, 3, 4] ''example.com'' [] s_init"
    and b: "\<not> primary_insert_fails env_up [1, 2, 3, 4] ''example.com'' [] s_init"
    by (simp_all add: eval_defs env_defs)
  have c: "''example.com,'' \<noteq> []" and d: "[] \<in> set (Split ''example.com,'' CHR '','')"
    by simp_all
  have db: "db_ok env_up" and an: "answers env_up ''.'' (server_of env_up [1, 2, 3, 4])"
    by (simp_all add: db_ok_def answers_def env_up_def example_env_def)
  have ipstr: "IP_String env_up [1, 2, 3, 4] = ''1.2.3.4''"
    by (simp add: eval_defs)
  have e: "Split ''example.com,'' CHR '','' = [''example.com'', []] \<and>
     sent (trace (snd ?q)) =
       [(''tok.example.com.'', ''1.2.3.4:53''), (''example.com.'', ''1.2.3.4:53''), (''.'', ''1.2.3.4:53'')] \<and>
     map Domain (dns_queries (snd ?q)) = [''example.com'', ''example.com'', []]"
    by (simp add: eval_defs env_defs)
  have "(''.'', server_of env_up [1, 2, 3, 4]) \<in> set (sent (trace (snd ?q))) \<and>
        (\<exists>row \<in> set (dns_queries (snd ?q)). Ip row = ''1.2.3.4'' \<and> Domain row = [] \<and> Query row = ''. A'')"
    using empty_segment_is_queried [of "''example.com,''" env_up "[1, 2, 3, 4]" "''example.com''" "[]" s_init]
      a b c d db an ipstr by simp
  then show ?thesis using e by (simp add: list_ex_iff)
qed

text \<open>
  C10 as stated fails where the primary query times out: the flag \<open>example.com,\<close>
  has an empty part, and no question for the empty name is sent to 1.2.3.4.
\<close>

theorem primary_failure_skips_empty_segment:
  "primary_query_fails env_down [1, 2, 3, 4] ''example.com'' [] s_init \<and>
   [] \<in> set (Split ''example.com,'' CHR '','') \<and>
   (''.'', server_of env_down [1, 2, 3, 4])
      \<notin> set (sent (trace (snd (queryDNS env_down [1, 2, 3, 4] ''example.com'' ''example.com,'' [] s_init))))"
  by (simp add: eval_defs env_defs)

end
